theory Spec2Isabelle
  imports Main "HOL-Library.Word" "HOL-Library.Sublist" "HOL-Library.Multiset"
    "HOL-Library.Log_Nat"
begin

section \<open>Periodic capture worker (src/pi\_discovery/demo/server.py, TIMELAPSE)\<close>

subsection \<open>The worker thread\<close>

text \<open>
  \<^verbatim>\<open>
  def timelapse_worker(interval, max_shots):
      global timelapse_stop
      count = 0
      while not timelapse_stop and (max_shots == 0 or count < max_shots):
          fname = TIMELAPSE_DIR / f'img_{...}.jpg'
          run_cmd(['rpicam-still', '-o', str(fname), ...], timeout=10)
          count += 1
          for _ in range(int(interval)):
              if timelapse_stop: break
              import time; time.sleep(1)
  \<close>
  The thread is a small-step machine. Its program points are the places where it reads
  the shared flag or blocks: the head of the \<open>while\<close> loop, inside \<open>run_cmd\<close>, the
  head of the \<open>for\<close> loop (with the number of iterations that remain) and inside
  \<open>time.sleep(1)\<close>. \<open>Exited\<close> is the returned function: \<open>is_alive()\<close> is false.
\<close>

datatype worker_pc = AtWhile | InCapture | AtFor nat | InSleep nat | Exited

record worker =
  interval :: int
  max_shots :: int
  count :: int
  pc :: worker_pc

definition is_alive :: "worker \<Rightarrow> bool" where
  "is_alive w = (pc w \<noteq> Exited)"

text \<open>One step of the thread; \<open>stop\<close> is the value of \<open>timelapse_stop\<close> it reads, if any.\<close>

fun worker_step :: "bool \<Rightarrow> worker \<Rightarrow> worker" where
  "worker_step stop w =
     (case pc w of
        AtWhile \<Rightarrow>
          if \<not> stop \<and> (max_shots w = 0 \<or> count w < max_shots w)
          then w\<lparr>pc := InCapture\<rparr> else w\<lparr>pc := Exited\<rparr>
      | InCapture \<Rightarrow> w\<lparr>count := count w + 1, pc := AtFor (nat (interval w))\<rparr>
      | AtFor k \<Rightarrow>
          if k = 0 then w\<lparr>pc := AtWhile\<rparr>
          else if stop then w\<lparr>pc := AtWhile\<rparr>
          else w\<lparr>pc := InSleep (k - 1)\<rparr>
      | InSleep k \<Rightarrow> w\<lparr>pc := AtFor k\<rparr>
      | Exited \<Rightarrow> w)"

text \<open>\<open>n\<close> steps of the thread while the flag keeps the value \<open>stop\<close>.\<close>

fun worker_steps :: "nat \<Rightarrow> bool \<Rightarrow> worker \<Rightarrow> worker" where
  "worker_steps 0 stop w = w"
| "worker_steps (Suc n) stop w = worker_steps n stop (worker_step stop w)"

text \<open>
  Upper bound, in seconds, on the time the step out of a program point blocks:
  \<open>run_cmd(..., timeout=10)\<close> and \<open>time.sleep(1)\<close>; the other steps do not block.
\<close>

fun step_seconds :: "worker_pc \<Rightarrow> nat" where
  "step_seconds InCapture = 10"
| "step_seconds (InSleep k) = 1"
| "step_seconds _ = 0"

fun elapsed :: "nat \<Rightarrow> bool \<Rightarrow> worker \<Rightarrow> nat" where
  "elapsed 0 stop w = 0"
| "elapsed (Suc n) stop w = step_seconds (pc w) + elapsed n stop (worker_step stop w)"

text \<open>
  The same sum for any charge \<open>f\<close> per program point; \<open>shot\<close> charges one for the step
  out of \<open>run_cmd\<close>, so that the sum is the number of capture attempts made.
\<close>

fun cost :: "(worker_pc \<Rightarrow> nat) \<Rightarrow> nat \<Rightarrow> bool \<Rightarrow> worker \<Rightarrow> nat" where
  "cost f 0 stop w = 0"
| "cost f (Suc n) stop w = f (pc w) + cost f n stop (worker_step stop w)"

fun shot :: "worker_pc \<Rightarrow> nat" where
  "shot InCapture = 1"
| "shot _ = 0"

subsection \<open>Shared state and the HTTP handlers\<close>

text \<open>
  The module globals \<open>timelapse_thread\<close> and \<open>timelapse_stop\<close>, every \<open>Thread\<close>
  object created so far (a handle is its index in \<open>threads\<close>), and the \<open>*.jpg\<close> files of
  \<open>TIMELAPSE_DIR\<close> in the order \<open>glob\<close> lists them.
\<close>

record image =
  name :: string
  mtime :: int

record sys =
  threads :: "worker list"
  timelapse_thread :: "nat option"
  timelapse_stop :: bool
  files :: "image list"

definition init :: sys where
  "init = \<lparr>threads = [], timelapse_thread = None, timelapse_stop = False, files = []\<rparr>"

text \<open>The JSON body of a start request: \<open>data.get('interval', 60)\<close>, \<open>data.get('duration', 0)\<close>.\<close>

record start_req =
  req_interval :: "int option"
  req_duration :: "int option"

text \<open>
  The answers of the handlers. \<open>InternalServerError\<close> is what the server sends when a
  handler raises.
\<close>

datatype response =
    StartOk int
  | AlreadyRunning
  | StopOk
  | Status bool nat "(string \<times> string) list"
  | InternalServerError

text \<open>\<open>timelapse_thread and timelapse_thread.is_alive()\<close>\<close>

definition thread_alive :: "sys \<Rightarrow> bool" where
  "thread_alive st =
     (case timelapse_thread st of
        None \<Rightarrow> False
      | Some h \<Rightarrow> h < length (threads st) \<and> is_alive (threads st ! h))"

text \<open>
  \<open>int(duration / interval)\<close> on two Python ints. \<open>/\<close> is true division: its result is
  the double nearest to the exact quotient, ties to even; it raises \<open>OverflowError\<close> when
  that is out of the range of a double and \<open>ZeroDivisionError\<close> for a zero divisor.
  \<open>int\<close> then truncates towards zero.

  \<open>truediv_trunc n d\<close> is that truncated double for positive \<open>n\<close> and \<open>d\<close>. With \<open>la\<close>
  and \<open>lb\<close> the bit lengths of \<open>n\<close> and \<open>d\<close>, the binary exponent of the quotient is
  \<open>e = la - lb\<close> or one less, and \<open>P - la = 52 - e\<close>: the quotient is scaled by that power
  of two, which brings it into the range from \<open>2^52\<close> to \<open>2^53\<close>, rounded to an integer
  (the 53 bits of the double), and scaled back. The rounded quotient is out of range from
  \<open>2^1024 - 2^970\<close> on.
\<close>

datatype error = ZeroDivisionError | OverflowError

definition round_half_even :: "nat \<Rightarrow> nat \<Rightarrow> nat" where
  "round_half_even n d =
     (let q = n div d; r = n mod d
      in if 2 * r < d \<or> (2 * r = d \<and> even q) then q else q + 1)"

definition truediv_trunc :: "nat \<Rightarrow> nat \<Rightarrow> nat" where
  "truediv_trunc n d =
     (let la = floorlog 2 n; lb = floorlog 2 d;
          P = (if d * 2 ^ la \<le> n * 2 ^ lb then 52 + lb else 53 + lb)
      in if la \<le> P then round_half_even (n * 2 ^ (P - la)) d div 2 ^ (P - la)
         else round_half_even n (d * 2 ^ (la - P)) * 2 ^ (la - P))"

definition int_truediv :: "int \<Rightarrow> int \<Rightarrow> error + int" where
  "int_truediv a b =
     (if b = 0 then Inl ZeroDivisionError
      else if (2 ^ 1024 - 2 ^ 970) * \<bar>b\<bar> \<le> \<bar>a\<bar> then Inl OverflowError
      else Inr (sgn a * sgn b * int (truediv_trunc (nat \<bar>a\<bar>) (nat \<bar>b\<bar>))))"

definition new_worker :: "int \<Rightarrow> int \<Rightarrow> worker" where
  "new_worker i m = \<lparr>interval = i, max_shots = m, count = 0, pc = AtWhile\<rparr>"

text \<open>
  \<^verbatim>\<open>
  def timelapse_start():
      global timelapse_thread, timelapse_stop
      if timelapse_thread and timelapse_thread.is_alive():
          return jsonify({'error': 'Already running'}), 400
      data = request.get_json() or {}
      interval = max(10, min(600, data.get('interval', 60)))
      duration = data.get('duration', 0)
      max_shots = int(duration / interval) if duration > 0 else 0
      timelapse_stop = False
      timelapse_thread = threading.Thread(target=timelapse_worker, args=(interval, max_shots), daemon=True)
      timelapse_thread.start()
      return jsonify({'success': True, 'interval': interval})
  \<close>
  \<open>start_commit\<close> is the part after the check. The two fields of the body are taken to
  be JSON integers. An exception raised by the division leaves the handler before its
  assignments.
\<close>

definition start_interval :: "start_req \<Rightarrow> int" where
  "start_interval data = max 10 (min 600 (case req_interval data of None \<Rightarrow> 60 | Some i \<Rightarrow> i))"

definition start_max_shots :: "start_req \<Rightarrow> error + int" where
  "start_max_shots data =
     (let duration = (case req_duration data of None \<Rightarrow> 0 | Some d \<Rightarrow> d)
      in if duration > 0 then int_truediv duration (start_interval data) else Inr 0)"

definition start_commit :: "start_req \<Rightarrow> sys \<Rightarrow> response \<times> sys" where
  "start_commit data st =
     (case start_max_shots data of
        Inl err \<Rightarrow> (InternalServerError, st)
      | Inr m \<Rightarrow>
          (StartOk (start_interval data),
           st\<lparr>timelapse_stop := False,
              threads := threads st @ [new_worker (start_interval data) m],
              timelapse_thread := Some (length (threads st))\<rparr>))"

definition timelapse_start :: "start_req \<Rightarrow> sys \<Rightarrow> response \<times> sys" where
  "timelapse_start data st =
     (if thread_alive st then (AlreadyRunning, st) else start_commit data st)"

text \<open>
  \<^verbatim>\<open>
  def timelapse_stop_route():
      global timelapse_stop
      timelapse_stop = True
      return jsonify({'success': True})
  \<close>
\<close>

definition timelapse_stop_route :: "sys \<Rightarrow> response \<times> sys" where
  "timelapse_stop_route st = (StopOk, st\<lparr>timelapse_stop := True\<rparr>)"

text \<open>The job of the thread that \<open>timelapse_thread\<close> refers to.\<close>

definition current :: "sys \<Rightarrow> worker option" where
  "current st =
     (case timelapse_thread st of
        None \<Rightarrow> None
      | Some h \<Rightarrow> if h < length (threads st) then Some (threads st ! h) else None)"

subsection \<open>Captures, the status handler and runs of the system\<close>

text \<open>
  What one \<open>run_cmd(['rpicam-still', '-o', str(fname), ...])\<close> leaves on disk: the file
  \<open>fname\<close> with a modification time, or nothing (the command failed or timed out;
  \<open>run_cmd\<close> swallows both). Writing to a name that exists replaces the file.
\<close>

datatype capture = Written string int | NoFile

definition write_file :: "string \<Rightarrow> int \<Rightarrow> image list \<Rightarrow> image list" where
  "write_file n t fs =
     (if n \<in> set (map name fs)
      then map (\<lambda>f. if name f = n then f\<lparr>mtime := t\<rparr> else f) fs
      else fs @ [\<lparr>name = n, mtime = t\<rparr>])"

text \<open>
  The scheduler lets thread \<open>h\<close> make one step; the step out of \<open>run_cmd\<close> is the one
  that may have written a file.
\<close>

definition tick :: "nat \<Rightarrow> capture \<Rightarrow> sys \<Rightarrow> sys" where
  "tick h cap st =
     (if h < length (threads st)
      then st\<lparr>threads := (threads st)[h := worker_step (timelapse_stop st) (threads st ! h)],
              files := (case (pc (threads st ! h), cap) of
                          (InCapture, Written n t) \<Rightarrow> write_file n t (files st)
                        | _ \<Rightarrow> files st)\<rparr>
      else st)"

text \<open>
  \<open>sorted(xs, key=key, reverse=True)\<close>: Python's stable sort, with the order of equal
  keys kept as in \<open>xs\<close>.
\<close>

definition sorted_reverse :: "('a \<Rightarrow> 'k::linorder) \<Rightarrow> 'a list \<Rightarrow> 'a list" where
  "sorted_reverse key xs = rev (sort_key key (rev xs))"

text \<open>
  \<^verbatim>\<open>
  def timelapse_status():
      global timelapse_thread
      running = timelapse_thread is not None and timelapse_thread.is_alive()
      images = sorted(TIMELAPSE_DIR.glob('*.jpg'), key=lambda x: x.stat().st_mtime, reverse=True)
      return jsonify({
          'running': running,
          'count': len(images),
          'images': [{'name': i.name, 'path': str(i)} for i in images[:20]]
      })
  \<close>
  The fields of \<open>Status\<close> are \<open>running\<close>, \<open>count\<close> and \<open>images\<close>; a path is written
  relative to \<open>DEMO_DIR\<close>.
\<close>

definition status_images :: "sys \<Rightarrow> image list" where
  "status_images st = sorted_reverse mtime (files st)"

definition timelapse_status :: "sys \<Rightarrow> response \<times> sys" where
  "timelapse_status st =
     (let running = thread_alive st;
          images = status_images st
      in (Status running (length images)
            (map (\<lambda>i. (name i, ''timelapse/'' @ name i)) (take 20 images)), st))"

text \<open>
  A run of the system in which every handler runs from its first line to its last
  without another thread in between: requests and thread steps, one after the other.
\<close>

datatype event = Start start_req | Stop | GetStatus | Tick nat capture

fun handle :: "event \<Rightarrow> sys \<Rightarrow> sys" where
  "handle (Start data) st = snd (timelapse_start data st)"
| "handle Stop st = snd (timelapse_stop_route st)"
| "handle GetStatus st = snd (timelapse_status st)"
| "handle (Tick h cap) st = tick h cap st"

fun run :: "event list \<Rightarrow> sys \<Rightarrow> sys" where
  "run [] st = st"
| "run (e # es) st = run es (handle e st)"

text \<open>The number of worker threads that have not returned.\<close>

definition alive_count :: "sys \<Rightarrow> nat" where
  "alive_count st = length (filter is_alive (threads st))"

text \<open>
  What thread \<open>h\<close> did during a run: the number of steps it made, and the sum of the
  charges \<open>f\<close> of the program points it stepped out of: its capture attempts, and the
  seconds it spent blocked.
\<close>

fun is_tick :: "nat \<Rightarrow> event \<Rightarrow> bool" where
  "is_tick h (Tick h' cap) = (h' = h)"
| "is_tick h _ = False"

definition ticks :: "nat \<Rightarrow> event list \<Rightarrow> nat" where
  "ticks h evs = length (filter (is_tick h) evs)"

definition charge :: "(worker_pc \<Rightarrow> nat) \<Rightarrow> nat \<Rightarrow> event \<Rightarrow> sys \<Rightarrow> nat" where
  "charge f h e st =
     (if is_tick h e \<and> h < length (threads st) then f (pc (threads st ! h)) else 0)"

fun total :: "(worker_pc \<Rightarrow> nat) \<Rightarrow> nat \<Rightarrow> event list \<Rightarrow> sys \<Rightarrow> nat" where
  "total f h [] st = 0"
| "total f h (e # es) st = charge f h e st + total f h es (handle e st)"

definition attempts :: "nat \<Rightarrow> event list \<Rightarrow> sys \<Rightarrow> nat" where
  "attempts h evs st = total shot h evs st"

definition blocked_seconds :: "nat \<Rightarrow> event list \<Rightarrow> sys \<Rightarrow> nat" where
  "blocked_seconds h evs st = total step_seconds h evs st"

text \<open>
  Flask serves requests from several threads and \<open>timelapse_start\<close> takes no lock, so
  another handler can run between its check (line 2 of the body) and the assignments
  that follow. A start handler is at its check, past it, or has answered; a schedule
  names the handler that makes the next step.
\<close>

datatype handler = Checking start_req | Committing start_req | Replied response

fun handler_step :: "handler \<Rightarrow> sys \<Rightarrow> handler \<times> sys" where
  "handler_step (Checking data) st =
     (if thread_alive st then (Replied AlreadyRunning, st) else (Committing data, st))"
| "handler_step (Committing data) st =
     (case start_commit data st of (r, st') \<Rightarrow> (Replied r, st'))"
| "handler_step (Replied r) st = (Replied r, st)"

fun interleave :: "nat list \<Rightarrow> handler list \<times> sys \<Rightarrow> handler list \<times> sys" where
  "interleave [] c = c"
| "interleave (i # sched) (hs, st) =
     (if i < length hs
      then (case handler_step (hs ! i) st of (h', st') \<Rightarrow> interleave sched (hs[i := h'], st'))
      else interleave sched (hs, st))"

text \<open>The state after two start handlers that both made the check before either assigned.\<close>

definition raced :: sys where
  "raced =
     snd (interleave [0, 1, 0, 1]
            ([Checking \<lparr>req_interval = None, req_duration = None\<rparr>,
              Checking \<lparr>req_interval = None, req_duration = None\<rparr>], init))"

text \<open>Every live thread is the one \<open>timelapse_thread\<close> refers to.\<close>

definition one_owner :: "sys \<Rightarrow> bool" where
  "one_owner st =
     (\<forall>h < length (threads st). is_alive (threads st ! h) \<longrightarrow> timelapse_thread st = Some h)"

text \<open>Thread \<open>h\<close> is dead, or the stop flag is set.\<close>

definition stopping :: "nat \<Rightarrow> sys \<Rightarrow> bool" where
  "stopping h st =
     (h < length (threads st) \<and> one_owner st
      \<and> (is_alive (threads st ! h) \<longrightarrow> timelapse_stop st))"

section \<open>Camera stream (src/pi\_discovery/demo/server.py, cam\_stream)\<close>

subsection \<open>The frame loop\<close>

text \<open>
  \<^verbatim>\<open>
  def gen():
      cmd = ['rpicam-vid', '-t', '0', '--inline', ..., '--codec', 'mjpeg', '-o', '-']
      p = subprocess.Popen(cmd, stdout=subprocess.PIPE, stderr=subprocess.DEVNULL)
      buf = b''
      try:
          while True:
              c = p.stdout.read(4096)
              if not c: break
              buf += c
              s, e = buf.find(b'\xff\xd8'), buf.find(b'\xff\xd9')
              if s != -1 and e != -1 and e > s:
                  yield b'--frame\r\nContent-Type: image/jpeg\r\n\r\n' + buf[s:e+2] + b'\r\n'
                  buf = buf[e+2:]
      finally: p.terminate()
  \<close>
\<close>

type_synonym byte = "8 word"

definition SOI :: "byte list" where
  "SOI = [0xFF, 0xD8]"

definition EOI :: "byte list" where
  "EOI = [0xFF, 0xD9]"

text \<open>
  \<open>bytes.find(sub)\<close>: the lowest index at which \<open>sub\<close> occurs, or \<open>-1\<close>. The search
  starts at index 0 of the buffer in both calls of the loop.
\<close>

fun find_opt :: "'a list \<Rightarrow> 'a list \<Rightarrow> nat option" where
  "find_opt sub [] = (if sub = [] then Some 0 else None)"
| "find_opt sub (b # bs) =
     (if prefix sub (b # bs) then Some 0 else map_option Suc (find_opt sub bs))"

definition bytes_find :: "'a list \<Rightarrow> 'a list \<Rightarrow> int" where
  "bytes_find buf sub = (case find_opt sub buf of None \<Rightarrow> - 1 | Some i \<Rightarrow> int i)"

text \<open>
  The slices \<open>xs[i:j]\<close> and \<open>xs[i:]\<close> for indices that are not negative, the only ones
  the loop uses (it slices after \<open>s != -1 and e != -1\<close>).
\<close>

definition slice :: "'a list \<Rightarrow> int \<Rightarrow> int \<Rightarrow> 'a list" where
  "slice xs i j = take (nat j - nat i) (drop (nat i) xs)"

definition slice_from :: "'a list \<Rightarrow> int \<Rightarrow> 'a list" where
  "slice_from xs i = drop (nat i) xs"

text \<open>
  The body of the loop after a read that returned the non-empty chunk \<open>c\<close>: the frame it
  yields, if any, and the buffer at the next read.
\<close>

definition gen_step :: "byte list \<Rightarrow> byte list \<Rightarrow> byte list option \<times> byte list" where
  "gen_step buf c =
     (let buf = buf @ c;
          s = bytes_find buf SOI;
          e = bytes_find buf EOI
      in if s \<noteq> - 1 \<and> e \<noteq> - 1 \<and> e > s
         then (Some (slice buf s (e + 2)), slice_from buf (e + 2))
         else (None, buf))"

text \<open>The multipart part that wraps a frame.\<close>

definition bytes_of :: "string \<Rightarrow> byte list" where
  "bytes_of cs = map of_char cs"

definition CRLF :: "byte list" where
  "CRLF = [0x0D, 0x0A]"

definition part :: "byte list \<Rightarrow> byte list" where
  "part frame =
     bytes_of ''--frame'' @ CRLF @ bytes_of ''Content-Type: image/jpeg'' @ CRLF @ CRLF
       @ frame @ CRLF"

text \<open>
  The loop over the chunks that the successive reads return, for a consumer that takes
  every part: the frames yielded and the buffer when the loop is left. An empty chunk is
  the end of the stream, and so is the end of the list.
\<close>

fun gen_run :: "byte list \<Rightarrow> byte list list \<Rightarrow> byte list list \<times> byte list" where
  "gen_run buf [] = ([], buf)"
| "gen_run buf (c # cs) =
     (if c = [] then ([], buf)
      else (case gen_step buf c of
              (None, buf') \<Rightarrow> gen_run buf' cs
            | (Some f, buf') \<Rightarrow> (case gen_run buf' cs of (fs, bf) \<Rightarrow> (f # fs, bf))))"

definition gen_frames :: "byte list list \<Rightarrow> byte list list" where
  "gen_frames cs = map part (fst (gen_run [] cs))"

subsection \<open>The generator and its child process\<close>

text \<open>
  The generator object that \<open>gen()\<close> returns, as Python runs it. It is created without
  running any of the body; the first \<open>next\<close> runs \<open>Popen\<close>, which is outside the \<open>try\<close>
  and may fail, and then the loop up to the first \<open>yield\<close>; there it is suspended inside
  the \<open>try\<close>. The consumer resumes it with \<open>next\<close>, or ends it with \<open>close\<close> (what the
  server does with the response iterable when the client is gone, and what Python does
  when the object is collected) or \<open>throw\<close>; both raise at the \<open>yield\<close>. Every way out of
  the \<open>try\<close> runs \<open>p.terminate()\<close>. A read returns data, returns nothing (end of the
  stream) or raises; \<open>pipe\<close> holds the results of the reads to come.
\<close>

datatype proc_state = NotSpawned | Running | Terminated

datatype read_result = Data "byte list" | ReadError

datatype gen_pc = Created | Suspended | Finished

record generator =
  gpc :: gen_pc
  gbuf :: "byte list"
  proc :: proc_state
  pipe :: "read_result list"
  popen_ok :: bool

datatype outcome = Yield "byte list" | StopIteration | Raise | Closed

definition new_gen :: "read_result list \<Rightarrow> bool \<Rightarrow> generator" where
  "new_gen rs ok = \<lparr>gpc = Created, gbuf = [], proc = NotSpawned, pipe = rs, popen_ok = ok\<rparr>"

text \<open>The \<open>while\<close> loop up to the point where it is left: by \<open>yield\<close>, \<open>break\<close> or an exception.\<close>

fun body :: "byte list \<Rightarrow> read_result list \<Rightarrow> outcome \<times> byte list \<times> read_result list" where
  "body buf [] = (StopIteration, buf, [])"
| "body buf (ReadError # rs) = (Raise, buf, rs)"
| "body buf (Data c # rs) =
     (if c = [] then (StopIteration, buf, rs)
      else (case gen_step buf c of
              (Some f, buf') \<Rightarrow> (Yield (part f), buf', rs)
            | (None, buf') \<Rightarrow> body buf' rs))"

text \<open>\<open>finally: p.terminate()\<close>\<close>

definition finally_terminate :: "generator \<Rightarrow> generator" where
  "finally_terminate g = g\<lparr>proc := Terminated, gpc := Finished\<rparr>"

definition resume :: "generator \<Rightarrow> outcome \<times> generator" where
  "resume g =
     (case body (gbuf g) (pipe g) of
        (Yield y, buf, rs) \<Rightarrow> (Yield y, g\<lparr>gpc := Suspended, gbuf := buf, pipe := rs\<rparr>)
      | (out, buf, rs) \<Rightarrow> (out, finally_terminate (g\<lparr>gbuf := buf, pipe := rs\<rparr>)))"

definition gen_next :: "generator \<Rightarrow> outcome \<times> generator" where
  "gen_next g =
     (case gpc g of
        Created \<Rightarrow>
          if popen_ok g then resume (g\<lparr>proc := Running, gbuf := []\<rparr>)
          else (Raise, g\<lparr>gpc := Finished\<rparr>)
      | Suspended \<Rightarrow> resume g
      | Finished \<Rightarrow> (StopIteration, g))"

definition gen_close :: "generator \<Rightarrow> outcome \<times> generator" where
  "gen_close g =
     (case gpc g of
        Created \<Rightarrow> (Closed, g\<lparr>gpc := Finished\<rparr>)
      | Suspended \<Rightarrow> (Closed, finally_terminate g)
      | Finished \<Rightarrow> (Closed, g))"

definition gen_throw :: "generator \<Rightarrow> outcome \<times> generator" where
  "gen_throw g =
     (case gpc g of
        Created \<Rightarrow> (Raise, g\<lparr>gpc := Finished\<rparr>)
      | Suspended \<Rightarrow> (Raise, finally_terminate g)
      | Finished \<Rightarrow> (Raise, g))"

datatype gen_op = Next | Close | Throw

fun gen_apply :: "gen_op \<Rightarrow> generator \<Rightarrow> outcome \<times> generator" where
  "gen_apply Next g = gen_next g"
| "gen_apply Close g = gen_close g"
| "gen_apply Throw g = gen_throw g"

fun gen_ops :: "gen_op list \<Rightarrow> generator \<Rightarrow> generator" where
  "gen_ops [] g = g"
| "gen_ops (x # xs) g = gen_ops xs (snd (gen_apply x g))"

text \<open>The process runs exactly while the generator is suspended inside the \<open>try\<close>.\<close>

definition owns :: "generator \<Rightarrow> bool" where
  "owns g =
     (case gpc g of
        Created \<Rightarrow> proc g = NotSpawned
      | Suspended \<Rightarrow> proc g = Running
      | Finished \<Rightarrow> proc g \<noteq> Running)"

declare worker_step.simps [simp del]

section \<open>The worker loop\<close>

lemma step_AtWhile:
  "pc w = AtWhile \<Longrightarrow> worker_step stop w =
     (if \<not> stop \<and> (max_shots w = 0 \<or> count w < max_shots w)
      then w\<lparr>pc := InCapture\<rparr> else w\<lparr>pc := Exited\<rparr>)"
  by (simp add: worker_step.simps)

lemma step_InCapture:
  "pc w = InCapture \<Longrightarrow> worker_step stop w =
     w\<lparr>count := count w + 1, pc := AtFor (nat (interval w))\<rparr>"
  by (simp add: worker_step.simps)

lemma step_AtFor:
  "pc w = AtFor k \<Longrightarrow> worker_step stop w =
     (if k = 0 \<or> stop then w\<lparr>pc := AtWhile\<rparr> else w\<lparr>pc := InSleep (k - 1)\<rparr>)"
  by (simp add: worker_step.simps)

lemma step_InSleep: "pc w = InSleep k \<Longrightarrow> worker_step stop w = w\<lparr>pc := AtFor k\<rparr>"
  by (simp add: worker_step.simps)

lemma step_Exited: "pc w = Exited \<Longrightarrow> worker_step stop w = w"
  by (simp add: worker_step.simps)

lemma worker_steps_add:
  "worker_steps (m + n) stop w = worker_steps n stop (worker_steps m stop w)"
  by (induction m arbitrary: w) simp_all

lemma worker_step_max_shots [simp]: "max_shots (worker_step stop w) = max_shots w"
  by (simp add: worker_step.simps split: worker_pc.splits)

lemma worker_step_interval [simp]: "interval (worker_step stop w) = interval w"
  by (simp add: worker_step.simps split: worker_pc.splits)

lemma unbounded_step_alive:
  "max_shots w = 0 \<Longrightarrow> is_alive w \<Longrightarrow> is_alive (worker_step False w)"
  by (simp add: is_alive_def worker_step.simps split: worker_pc.splits)

lemma unbounded_never_exits:
  "max_shots w = 0 \<Longrightarrow> is_alive w \<Longrightarrow> is_alive (worker_steps n False w)"
proof (induction n arbitrary: w)
  case 0
  then show ?case by simp
next
  case (Suc n)
  have "is_alive (worker_step False w)"
    using Suc.prems by (rule unbounded_step_alive)
  moreover have "max_shots (worker_step False w) = 0"
    using Suc.prems(1) by (simp only: worker_step_max_shots)
  ultimately show ?case
    using Suc.IH by simp
qed




lemma exited_stays: "pc w = Exited \<Longrightarrow> worker_steps n stop w = w"
  by (induction n) (simp_all add: step_Exited)

lemma exited_elapsed: "pc w = Exited \<Longrightarrow> elapsed n stop w = 0"
  by (induction n) (simp_all add: step_Exited)

lemma steps_after_exit:
  assumes "pc (worker_steps m stop w) = Exited" and "m \<le> n"
  shows "worker_steps n stop w = worker_steps m stop w"
proof -
  from assms(2) obtain k where "n = m + k"
    using le_Suc_ex by blast
  with assms(1) show ?thesis
    by (simp add: worker_steps_add exited_stays)
qed

lemma cost_add:
  "cost f (m + n) stop w = cost f m stop w + cost f n stop (worker_steps m stop w)"
  by (induction m arbitrary: w) simp_all

lemma exited_cost: "pc w = Exited \<Longrightarrow> f Exited = 0 \<Longrightarrow> cost f n stop w = 0"
  by (induction n) (simp_all add: step_Exited)

lemma elapsed_cost: "cost step_seconds n stop w = elapsed n stop w"
  by (induction n arbitrary: w) simp_all




section \<open>Division\<close>

lemma div_step:
  fixes q c :: nat
  assumes "0 < c" and "\<not> c dvd Suc q"
  shows "Suc q div c = q div c"
proof -
  have "Suc q mod c \<noteq> 0" using assms(2) by (simp add: dvd_eq_mod_eq_0)
  then show ?thesis
    by (metis div_Suc)
qed

text \<open>
  A quotient below \<open>2^53\<close> that is scaled into the 53 bits: rounding it adds less than
  the distance to the next integer, so truncation gives the integer quotient.
\<close>

lemma rne_trunc:
  assumes d: "0 < d" and norm: "2 ^ 52 * d \<le> n * 2 ^ s" and n: "n < 2 ^ 53"
  shows "round_half_even (n * 2 ^ s) d div 2 ^ s = n div d"
proof -
  define N where "N = n * 2 ^ s"
  define q where "q = N div d"
  define r where "r = N mod d"
  have N: "N = q * d + r" by (simp add: q_def r_def)
  have r: "r < d" using d by (simp add: r_def)
  have base: "q div 2 ^ s = n div d"
  proof -
    have "q div 2 ^ s = N div (d * 2 ^ s)"
      by (simp add: q_def div_mult2_eq)
    also have "\<dots> = N div (2 ^ s * d)" by (simp add: mult.commute)
    also have "\<dots> = (N div 2 ^ s) div d" by (simp add: div_mult2_eq)
    also have "N div 2 ^ s = n" by (simp add: N_def)
    finally show ?thesis .
  qed
  have up: "Suc q div 2 ^ s = q div 2 ^ s" if half: "d \<le> 2 * r"
  proof (rule div_step)
    show "0 < (2::nat) ^ s" by simp
    show "\<not> 2 ^ s dvd Suc q"
    proof
      assume "2 ^ s dvd Suc q"
      then have "2 ^ s dvd Suc q * d" by (rule dvd_mult2)
      moreover have "Suc q * d = N + (d - r)" using N r by simp
      ultimately have "2 ^ s dvd N + (d - r)" by simp
      moreover have "2 ^ s dvd N" by (simp add: N_def)
      ultimately have "2 ^ s dvd d - r"
        by (simp add: dvd_add_right_iff)
      moreover have "0 < d - r" using r by simp
      ultimately have "2 ^ s \<le> d - r" by (simp add: dvd_imp_le)
      with half have le: "2 * 2 ^ s \<le> d" by linarith
      have "2 ^ 52 * d \<le> n * 2 ^ s" by (rule norm)
      also have "\<dots> < 2 ^ 53 * 2 ^ s" using n by simp
      finally have "2 ^ 52 * d < 2 ^ 52 * (2 * 2 ^ s)" by simp
      then have "d < 2 * 2 ^ s" by simp
      with le show False by simp
    qed
  qed
  have "round_half_even N d = q \<or> (round_half_even N d = Suc q \<and> d \<le> 2 * r)"
    by (auto simp: round_half_even_def Let_def q_def r_def)
  with base up show ?thesis
    unfolding N_def [symmetric] by auto
qed

lemma truediv_trunc_exact:
  assumes n: "0 < n" "n < 2 ^ 53" and d: "0 < d"
  shows "truediv_trunc n d = n div d"
proof -
  define la where "la = floorlog 2 n"
  define lb where "lb = floorlog 2 d"
  define P where "P = (if d * 2 ^ la \<le> n * 2 ^ lb then 52 + lb else 53 + lb)"
  have la: "la \<le> 53" using n(2) by (simp add: la_def floorlog_le_iff)
  have "la \<noteq> 0" using n(1) by (simp add: la_def floorlog_eq_zero_iff)
  then have la0: "0 < la" by simp
  have la1: "2 ^ (la - 1) \<le> n"
    using floorlog_bounds [of n 2] n(1) by (simp add: la_def)
  have "lb \<noteq> 0" using d by (simp add: lb_def floorlog_eq_zero_iff)
  then have lb0: "0 < lb" by simp
  have lb: "d < 2 ^ lb"
    using floorlog_bounds [of d 2] d by (simp add: lb_def)
  have P: "la \<le> P" using la lb0 by (simp add: P_def)
  have norm: "2 ^ 52 * d \<le> n * 2 ^ (P - la)"
  proof (cases "d * 2 ^ la \<le> n * 2 ^ lb")
    case True
    then have Peq: "P = 52 + lb" by (simp add: P_def)
    have "2 ^ 52 * d * 2 ^ la = 2 ^ 52 * (d * 2 ^ la)" by simp
    also have "\<dots> \<le> 2 ^ 52 * (n * 2 ^ lb)" using True by simp
    also have "\<dots> = n * 2 ^ P" by (simp add: Peq power_add)
    also have "\<dots> = n * 2 ^ (P - la) * 2 ^ la"
      using P by (simp add: power_add [symmetric])
    finally show ?thesis by simp
  next
    case False
    then have Peq: "P = 53 + lb" by (simp add: P_def)
    have "2 ^ 52 * d * 2 ^ la \<le> 2 ^ 52 * 2 ^ lb * 2 ^ la"
      using lb by simp
    also have "\<dots> = 2 ^ (la - 1) * 2 ^ P"
    proof -
      have e: "52 + lb + la = (la - 1) + P" using la0 by (simp add: Peq)
      have "2 ^ 52 * 2 ^ lb * 2 ^ la = (2::nat) ^ (52 + lb + la)"
        by (simp only: power_add)
      also have "\<dots> = 2 ^ ((la - 1) + P)" by (simp only: e)
      also have "\<dots> = 2 ^ (la - 1) * 2 ^ P" by (simp only: power_add)
      finally show ?thesis .
    qed
    also have "\<dots> \<le> n * 2 ^ P" using la1 by simp
    also have "\<dots> = n * 2 ^ (P - la) * 2 ^ la"
      using P by (simp add: power_add [symmetric])
    finally show ?thesis by simp
  qed
  have "truediv_trunc n d = round_half_even (n * 2 ^ (P - la)) d div 2 ^ (P - la)"
    using P by (simp add: truediv_trunc_def Let_def la_def [symmetric] lb_def [symmetric] P_def [symmetric])
  also have "\<dots> = n div d"
    using d norm n(2) by (rule rne_trunc)
  finally show ?thesis .
qed

lemma int_truediv_exact:
  assumes "0 < a" and "a < 2 ^ 53" and "0 < b"
  shows "int_truediv a b = Inr (a div b)"
proof -
  have "(2 ^ 53 :: int) \<le> 2 ^ 1024 - 2 ^ 970" by simp
  also have "\<dots> = (2 ^ 1024 - 2 ^ 970) * 1" by simp
  also have "\<dots> \<le> (2 ^ 1024 - 2 ^ 970) * b"
    using assms(3) by (intro mult_left_mono) simp_all
  finally have no: "\<not> (2 ^ 1024 - 2 ^ 970) * \<bar>b\<bar> \<le> \<bar>a\<bar>"
    using assms by simp
  have "truediv_trunc (nat a) (nat b) = nat a div nat b"
    by (rule truediv_trunc_exact) (use assms in \<open>simp_all add: nat_less_iff\<close>)
  also have "int \<dots> = a div b"
    using assms by (simp add: zdiv_int)
  finally have "int (truediv_trunc (nat a) (nat b)) = a div b" .
  with no assms show ?thesis
    by (simp add: int_truediv_def)
qed



section \<open>Accepted start requests\<close>

lemma start_interval_range: "10 \<le> start_interval data \<and> start_interval data \<le> 600"
  by (simp add: start_interval_def)

lemma start_accepted:
  "\<not> thread_alive st \<Longrightarrow> start_max_shots data = Inr m \<Longrightarrow>
   timelapse_start data st =
     (StartOk (start_interval data),
      st\<lparr>timelapse_stop := False,
         threads := threads st @ [new_worker (start_interval data) m],
         timelapse_thread := Some (length (threads st))\<rparr>)"
  by (simp add: timelapse_start_def start_commit_def)

lemma start_failed:
  "\<not> thread_alive st \<Longrightarrow> start_max_shots data = Inl err \<Longrightarrow>
   timelapse_start data st = (InternalServerError, st)"
  by (simp add: timelapse_start_def start_commit_def)


lemma current_after_start:
  "\<not> thread_alive st \<Longrightarrow> start_max_shots data = Inr m \<Longrightarrow>
   current (snd (timelapse_start data st)) = Some (new_worker (start_interval data) m)"
  by (simp add: start_accepted current_def)

lemma start_max_shots_eq:
  assumes "d < 2 ^ 53"
  shows "start_max_shots \<lparr>req_interval = i, req_duration = Some d\<rparr>
     = Inr (if d > 0 then d div start_interval \<lparr>req_interval = i, req_duration = Some d\<rparr> else 0)"
proof -
  have "0 < start_interval \<lparr>req_interval = i, req_duration = Some d\<rparr>"
    using start_interval_range [of "\<lparr>req_interval = i, req_duration = Some d\<rparr>"] by linarith
  with assms show ?thesis
    by (simp add: start_max_shots_def int_truediv_exact)
qed

lemma start_max_shots_default: "start_max_shots \<lparr>req_interval = i, req_duration = None\<rparr> = Inr 0"
  by (simp add: start_max_shots_def)

text \<open>A duration whose quotient is out of the range of a double: the handler raises.\<close>

lemma start_overflow:
  "timelapse_start \<lparr>req_interval = Some 10, req_duration = Some (10 ^ 400)\<rparr> st
     = (if thread_alive st then (AlreadyRunning, st) else (InternalServerError, st))"
  by (simp add: timelapse_start_def start_commit_def start_max_shots_def start_interval_def
      int_truediv_def)

lemma new_worker_unbounded: "is_alive (worker_steps n False (new_worker i 0))"
  by (rule unbounded_never_exits) (simp_all add: new_worker_def is_alive_def)


section \<open>Runs of the system\<close>

lemma step_keeps_dead: "is_alive (worker_step stop w) \<Longrightarrow> is_alive w"
  by (cases "pc w") (simp_all add: is_alive_def step_Exited)

lemma one_owner_init: "one_owner init"
  by (simp add: one_owner_def init_def)

lemma one_owner_idle:
  assumes "one_owner st" and "\<not> thread_alive st" and "h < length (threads st)"
  shows "\<not> is_alive (threads st ! h)"
proof
  assume a: "is_alive (threads st ! h)"
  with assms(1,3) have "timelapse_thread st = Some h"
    by (simp add: one_owner_def)
  with a assms(3) have "thread_alive st"
    by (simp add: thread_alive_def)
  with assms(2) show False by simp
qed

lemma one_owner_start: "one_owner st \<Longrightarrow> one_owner (snd (timelapse_start data st))"
proof (cases "thread_alive st")
  case True
  assume "one_owner st"
  with True show ?thesis by (simp add: timelapse_start_def)
next
  case False
  assume inv: "one_owner st"
  have dead: "\<not> is_alive (threads st ! h)" if "h < length (threads st)" for h
    using inv False that by (rule one_owner_idle)
  show ?thesis
  proof (cases "start_max_shots data")
    case (Inl err)
    with False inv show ?thesis by (simp add: start_failed)
  next
    case (Inr m)
    note acc = start_accepted [OF False Inr]
    show ?thesis
      unfolding one_owner_def
    proof (intro allI impI)
      fix h
      assume h: "h < length (threads (snd (timelapse_start data st)))"
        and a: "is_alive (threads (snd (timelapse_start data st)) ! h)"
      have "h = length (threads st)"
      proof (rule ccontr)
        assume "h \<noteq> length (threads st)"
        with h have lt: "h < length (threads st)"
          by (simp add: acc)
        with a have "is_alive (threads st ! h)"
          by (simp add: acc nth_append)
        with dead [OF lt] show False by simp
      qed
      then show "timelapse_thread (snd (timelapse_start data st)) = Some h"
        by (simp add: acc)
    qed
  qed
qed

lemma one_owner_tick: "one_owner st \<Longrightarrow> one_owner (tick h cap st)"
proof (cases "h < length (threads st)")
  case False
  assume "one_owner st"
  with False show ?thesis by (simp add: tick_def)
next
  case True
  assume inv: "one_owner st"
  show ?thesis
    unfolding one_owner_def
  proof (intro allI impI)
    fix k
    assume k: "k < length (threads (tick h cap st))"
      and a: "is_alive (threads (tick h cap st) ! k)"
    from k True have k': "k < length (threads st)"
      by (simp add: tick_def)
    have "is_alive (threads st ! k)"
    proof (cases "k = h")
      case True
      with a \<open>h < length (threads st)\<close>
      have "is_alive (worker_step (timelapse_stop st) (threads st ! h))"
        by (simp add: tick_def)
      then have "is_alive (threads st ! h)" by (rule step_keeps_dead)
      with True show ?thesis by simp
    next
      case False
      with a \<open>h < length (threads st)\<close> show ?thesis
        by (simp add: tick_def)
    qed
    with inv k' have "timelapse_thread st = Some k"
      by (simp add: one_owner_def)
    with True show "timelapse_thread (tick h cap st) = Some k"
      by (simp add: tick_def)
  qed
qed

lemma one_owner_handle: "one_owner st \<Longrightarrow> one_owner (handle e st)"
proof (cases e)
  case (Start data)
  assume "one_owner st"
  then show ?thesis unfolding Start handle.simps by (rule one_owner_start)
next
  case Stop
  assume "one_owner st"
  then show ?thesis
    by (simp add: Stop timelapse_stop_route_def one_owner_def)
next
  case GetStatus
  assume "one_owner st"
  then show ?thesis
    by (simp add: GetStatus timelapse_status_def Let_def)
next
  case (Tick h cap)
  assume "one_owner st"
  then show ?thesis unfolding Tick handle.simps by (rule one_owner_tick)
qed

lemma one_owner_run: "one_owner st \<Longrightarrow> one_owner (run evs st)"
  by (induction evs arbitrary: st) (simp_all add: one_owner_handle)

lemma filter_at_most_one:
  "(\<And>i j. i < length xs \<Longrightarrow> j < length xs \<Longrightarrow> P (xs ! i) \<Longrightarrow> P (xs ! j) \<Longrightarrow> i = j)
   \<Longrightarrow> length (filter P xs) \<le> 1"
proof (induction xs)
  case Nil
  then show ?case by simp
next
  case (Cons x xs)
  have tail: "i = j" if "i < length xs" "j < length xs" "P (xs ! i)" "P (xs ! j)" for i j
    using Cons.prems [of "Suc i" "Suc j"] that by simp
  show ?case
  proof (cases "P x")
    case True
    have "\<not> P y" if "y \<in> set xs" for y
    proof
      assume py: "P y"
      from that obtain j where j: "j < length xs" "xs ! j = y"
        by (auto simp: in_set_conv_nth)
      with py True Cons.prems [of 0 "Suc j"] show False by simp
    qed
    then have "filter P xs = []"
      by (simp add: filter_empty_conv)
    with True show ?thesis by simp
  next
    case False
    with Cons.IH tail show ?thesis by simp
  qed
qed

lemma one_owner_alive_count: "one_owner st \<Longrightarrow> alive_count st \<le> 1"
  unfolding alive_count_def
proof (rule filter_at_most_one)
  fix i j
  assume inv: "one_owner st" and "i < length (threads st)" "j < length (threads st)"
    "is_alive (threads st ! i)" "is_alive (threads st ! j)"
  then have "timelapse_thread st = Some i" "timelapse_thread st = Some j"
    unfolding one_owner_def by blast+
  then show "i = j" by simp
qed

lemma one_owner_running:
  assumes "one_owner st"
  shows "thread_alive st \<longleftrightarrow> (\<exists>w \<in> set (threads st). is_alive w)"
proof
  assume "thread_alive st"
  then show "\<exists>w \<in> set (threads st). is_alive w"
    by (auto simp: thread_alive_def split: option.splits)
next
  assume "\<exists>w \<in> set (threads st). is_alive w"
  then obtain h where h: "h < length (threads st)" "is_alive (threads st ! h)"
    by (auto simp: in_set_conv_nth)
  with assms have "timelapse_thread st = Some h"
    by (simp add: one_owner_def)
  with h show "thread_alive st"
    by (simp add: thread_alive_def)
qed

lemma run_append: "run (xs @ ys) st = run ys (run xs st)"
  by (induction xs arbitrary: st) simp_all

lemma total_append:
  "total f h (xs @ ys) st = total f h xs st + total f h ys (run xs st)"
  by (induction xs arbitrary: st) simp_all

text \<open>A run in which only thread \<open>h\<close> makes steps: it reads the flag the state has.\<close>

lemma run_ticks:
  "h < length (threads st) \<Longrightarrow>
     threads (run (map (Tick h) caps) st)
       = (threads st)[h := worker_steps (length caps) (timelapse_stop st) (threads st ! h)]
     \<and> timelapse_stop (run (map (Tick h) caps) st) = timelapse_stop st
     \<and> timelapse_thread (run (map (Tick h) caps) st) = timelapse_thread st
     \<and> total f h (map (Tick h) caps) st
         = cost f (length caps) (timelapse_stop st) (threads st ! h)"
proof (induction caps arbitrary: st)
  case Nil
  then show ?case by simp
next
  case (Cons cap caps)
  let ?st1 = "tick h cap st"
  from Cons.prems have t: "threads ?st1 = (threads st)[h := worker_step (timelapse_stop st) (threads st ! h)]"
    and f: "timelapse_stop ?st1 = timelapse_stop st"
    and th: "timelapse_thread ?st1 = timelapse_thread st"
    by (simp_all add: tick_def)
  from t Cons.prems have h1: "h < length (threads ?st1)"
    and w1: "threads ?st1 ! h = worker_step (timelapse_stop st) (threads st ! h)"
    by simp_all
  note ih = Cons.IH [OF h1, unfolded f th w1]
  have c: "charge f h (Tick h cap) st = f (pc (threads st ! h))"
    using Cons.prems by (simp add: charge_def)
  from ih show ?case
    by (simp add: t c)
qed

text \<open>
  Once the flag is set while thread \<open>h\<close> is alive, it stays set until the thread has
  exited, since a start is refused until then: every step of the thread reads it set.
\<close>

lemma dead_step: "\<not> is_alive w \<Longrightarrow> worker_step stop w = w"
  by (simp add: is_alive_def step_Exited)

lemma stopping_start:
  assumes "stopping h st"
  shows "stopping h (snd (timelapse_start data st))
       \<and> threads (snd (timelapse_start data st)) ! h = threads st ! h"
proof (cases "thread_alive st")
  case True
  with assms show ?thesis by (simp add: timelapse_start_def)
next
  case False
  from assms have h: "h < length (threads st)" and inv: "one_owner st"
    by (simp_all add: stopping_def)
  have dead: "\<not> is_alive (threads st ! h)"
    using inv False h by (rule one_owner_idle)
  show ?thesis
  proof (cases "start_max_shots data")
    case (Inl err)
    with False assms show ?thesis by (simp add: start_failed)
  next
    case (Inr m)
    have "one_owner (snd (timelapse_start data st))"
      using inv by (rule one_owner_start)
    with False Inr h dead show ?thesis
      by (simp add: stopping_def start_accepted nth_append)
  qed
qed

lemma stopping_tick:
  assumes "stopping h st"
  shows "stopping h (tick h' cap st)
       \<and> threads (tick h' cap st) ! h
           = (if h' = h then worker_step True (threads st ! h) else threads st ! h)"
proof -
  from assms have h: "h < length (threads st)" and inv: "one_owner st"
    and flag: "is_alive (threads st ! h) \<Longrightarrow> timelapse_stop st"
    by (simp_all add: stopping_def)
  have own: "one_owner (tick h' cap st)"
    using inv by (rule one_owner_tick)
  have len: "length (threads (tick h' cap st)) = length (threads st)"
    and fl: "timelapse_stop (tick h' cap st) = timelapse_stop st"
    by (simp_all add: tick_def)
  show ?thesis
  proof (cases "h' = h")
    case True
    have read: "worker_step (timelapse_stop st) (threads st ! h) = worker_step True (threads st ! h)"
    proof (cases "is_alive (threads st ! h)")
      case True
      then show ?thesis by (simp add: flag)
    next
      case False
      then show ?thesis by (simp add: dead_step)
    qed
    have nth: "threads (tick h' cap st) ! h = worker_step True (threads st ! h)"
      using True h read by (simp add: tick_def)
    have "timelapse_stop st" if "is_alive (threads (tick h' cap st) ! h)"
    proof (rule flag)
      from that nth have "is_alive (worker_step True (threads st ! h))" by simp
      then show "is_alive (threads st ! h)" by (rule step_keeps_dead)
    qed
    with own len fl h nth True show ?thesis
      by (simp add: stopping_def)
  next
    case False
    then have nth: "threads (tick h' cap st) ! h = threads st ! h"
      by (simp add: tick_def)
    with own len fl h flag False show ?thesis
      by (simp add: stopping_def)
  qed
qed

lemma stopping_handle:
  assumes "stopping h st"
  shows "stopping h (handle e st)
       \<and> threads (handle e st) ! h
           = (if is_tick h e then worker_step True (threads st ! h) else threads st ! h)"
proof (cases e)
  case (Start data)
  with stopping_start [OF assms, of data] show ?thesis by simp
next
  case Stop
  with assms show ?thesis
    by (simp add: timelapse_stop_route_def stopping_def one_owner_def)
next
  case GetStatus
  with assms show ?thesis
    by (simp add: timelapse_status_def Let_def)
next
  case (Tick h' cap)
  with stopping_tick [OF assms, of h' cap] show ?thesis by simp
qed

lemma stopping_run:
  "stopping h st \<Longrightarrow>
     stopping h (run evs st)
     \<and> threads (run evs st) ! h = worker_steps (ticks h evs) True (threads st ! h)
     \<and> total f h evs st = cost f (ticks h evs) True (threads st ! h)"
proof (induction evs arbitrary: st)
  case Nil
  then show ?case by (simp add: ticks_def)
next
  case (Cons e evs)
  note s = stopping_handle [OF Cons.prems, of e]
  from s have s1: "stopping h (handle e st)" by simp
  note ih = Cons.IH [OF s1]
  from Cons.prems have h: "h < length (threads st)" by (simp add: stopping_def)
  show ?case
  proof (cases "is_tick h e")
    case True
    with s have w: "threads (handle e st) ! h = worker_step True (threads st ! h)" by simp
    from True h have c: "charge f h e st = f (pc (threads st ! h))" by (simp add: charge_def)
    from True have n: "ticks h (e # evs) = Suc (ticks h evs)" by (simp add: ticks_def)
    from ih show ?thesis by (simp add: w c n)
  next
    case False
    with s have w: "threads (handle e st) ! h = threads st ! h" by simp
    from False have c: "charge f h e st = 0" by (simp add: charge_def)
    from False have n: "ticks h (e # evs) = ticks h evs" by (simp add: ticks_def)
    from ih show ?thesis by (simp add: w c n)
  qed
qed

lemma stopping_after_stop:
  "h < length (threads (run evs init)) \<Longrightarrow>
     stopping h (snd (timelapse_stop_route (run evs init)))"
  using one_owner_run [OF one_owner_init, of evs]
  by (simp add: stopping_def timelapse_stop_route_def one_owner_def)

lemma alive_count_pos: "0 < alive_count st \<longleftrightarrow> (\<exists>w \<in> set (threads st). is_alive w)"
  by (simp add: alive_count_def filter_empty_conv)

lemma raced_state:
  "raced = \<lparr>threads = [new_worker 60 0, new_worker 60 0], timelapse_thread = Some 1,
            timelapse_stop = False, files = []\<rparr>"
  by (simp add: raced_def start_commit_def thread_alive_def init_def
      start_max_shots_def start_interval_def)

section \<open>Start while a job runs\<close>

text \<open>
  C5, as stated: every start request made while a capture job is running is rejected and
  changes nothing. The handler does not look at the jobs; it looks at the one thread that
  \<open>timelapse_thread\<close> refers to. After two interleaved starts the first job is no longer
  that thread. Let it capture once and wait, stop, and let the second job exit: the first
  job is still in its wait, and a start is accepted, clears the stop flag and creates a
  third worker.
\<close>

theorem start_accepted_while_job_runs:
  "map pc (threads (run [Tick 0 NoFile, Tick 0 NoFile, Tick 0 NoFile, Stop, Tick 1 NoFile] raced))
     = [InSleep 59, Exited]
   \<and> alive_count (run [Tick 0 NoFile, Tick 0 NoFile, Tick 0 NoFile, Stop, Tick 1 NoFile] raced) = 1
   \<and> timelapse_stop (run [Tick 0 NoFile, Tick 0 NoFile, Tick 0 NoFile, Stop, Tick 1 NoFile] raced)
   \<and> fst (timelapse_start \<lparr>req_interval = None, req_duration = None\<rparr>
        (run [Tick 0 NoFile, Tick 0 NoFile, Tick 0 NoFile, Stop, Tick 1 NoFile] raced))
       = StartOk 60
   \<and> snd (timelapse_start \<lparr>req_interval = None, req_duration = None\<rparr>
        (run [Tick 0 NoFile, Tick 0 NoFile, Tick 0 NoFile, Stop, Tick 1 NoFile] raced))
       = \<lparr>threads = [\<lparr>interval = 60, max_shots = 0, count = 1, pc = InSleep 59\<rparr>,
                     \<lparr>interval = 60, max_shots = 0, count = 0, pc = Exited\<rparr>,
                     \<lparr>interval = 60, max_shots = 0, count = 0, pc = AtWhile\<rparr>],
          timelapse_thread = Some 2, timelapse_stop = False, files = []\<rparr>"
proof -
  have r: "run [Tick 0 NoFile, Tick 0 NoFile, Tick 0 NoFile, Stop, Tick 1 NoFile] raced
     = \<lparr>threads = [\<lparr>interval = 60, max_shots = 0, count = 1, pc = InSleep 59\<rparr>,
                   \<lparr>interval = 60, max_shots = 0, count = 0, pc = Exited\<rparr>],
        timelapse_thread = Some 1, timelapse_stop = True, files = []\<rparr>"
    by (simp add: raced_state timelapse_stop_route_def tick_def new_worker_def
        step_AtWhile step_InCapture step_AtFor)
  show ?thesis
    unfolding r
    by (simp add: alive_count_def is_alive_def timelapse_start_def start_commit_def
        thread_alive_def start_max_shots_def start_interval_def new_worker_def)
qed

text \<open>
  C5, amended. When the handlers have run one at a time (every state that requests and
  thread steps reach from the initial one), a start request made while a worker thread is
  alive is answered with the "Already running" error and changes nothing: the thread
  handle, every thread (so the running job and its shot counter), the stop flag and the
  files are the ones from before, and no thread is created.
\<close>

theorem start_while_running_rejected:
  "0 < alive_count (run evs init) \<longrightarrow>
     timelapse_start data (run evs init) = (AlreadyRunning, run evs init)"
proof
  assume "0 < alive_count (run evs init)"
  then have "\<exists>w \<in> set (threads (run evs init)). is_alive w"
    by (simp add: alive_count_pos)
  moreover have "one_owner (run evs init)"
    by (rule one_owner_run) (rule one_owner_init)
  ultimately have "thread_alive (run evs init)"
    by (simp add: one_owner_running)
  then show "timelapse_start data (run evs init) = (AlreadyRunning, run evs init)"
    by (simp add: timelapse_start_def)
qed

theorem start_while_running_rejected_witness:
  "0 < alive_count (run [Start \<lparr>req_interval = Some 10, req_duration = Some 35\<rparr>,
                          Tick 0 NoFile, Tick 0 NoFile, Tick 0 NoFile] init)
   \<and> timelapse_start \<lparr>req_interval = None, req_duration = None\<rparr>
        (run [Start \<lparr>req_interval = Some 10, req_duration = Some 35\<rparr>,
              Tick 0 NoFile, Tick 0 NoFile, Tick 0 NoFile] init)
     = (AlreadyRunning,
        \<lparr>threads = [\<lparr>interval = 10, max_shots = 3, count = 1, pc = InSleep 9\<rparr>],
         timelapse_thread = Some 0, timelapse_stop = False, files = []\<rparr>)"
proof -
  let ?evs = "[Start \<lparr>req_interval = Some 10, req_duration = Some 35\<rparr>,
               Tick 0 NoFile, Tick 0 NoFile, Tick 0 NoFile]"
  have r: "run ?evs init
     = \<lparr>threads = [\<lparr>interval = 10, max_shots = 3, count = 1, pc = InSleep 9\<rparr>],
        timelapse_thread = Some 0, timelapse_stop = False, files = []\<rparr>"
    by (simp add: timelapse_start_def start_commit_def thread_alive_def init_def
        start_max_shots_eq start_interval_def new_worker_def tick_def
        step_AtWhile step_InCapture step_AtFor)
  have h: "0 < alive_count (run ?evs init)"
    unfolding r by (simp add: alive_count_def is_alive_def)
  note t = start_while_running_rejected [of ?evs "\<lparr>req_interval = None, req_duration = None\<rparr>",
      THEN mp, OF h]
  from h t [unfolded r] show ?thesis
    unfolding r by (intro conjI)
qed

section \<open>Shot count\<close>




section \<open>Cancellation\<close>

lemma elapsed_add:
  "elapsed (m + n) stop w = elapsed m stop w + elapsed n stop (worker_steps m stop w)"
  by (induction m arbitrary: w) simp_all

lemma elapsed_mono: "elapsed n stop w \<le> elapsed (n + m) stop w"
  by (simp add: elapsed_add)

lemma elapsed_bounded_by_exit:
  assumes "pc (worker_steps m stop w) = Exited"
  shows "elapsed n stop w \<le> elapsed m stop w"
proof -
  have "elapsed n stop w \<le> elapsed (n + m) stop w"
    by (rule elapsed_mono)
  also have "n + m = m + n" by simp
  also have "elapsed (m + n) stop w = elapsed m stop w + elapsed n stop (worker_steps m stop w)"
    by (rule elapsed_add)
  also have "elapsed n stop (worker_steps m stop w) = 0"
    using assms by (rule exited_elapsed)
  finally show ?thesis by simp
qed

lemma stop_in_wait:
  assumes "pc w = AtFor k \<or> pc w = InSleep k"
  shows "worker_steps 3 True w = w\<lparr>pc := Exited\<rparr>" and "elapsed 3 True w \<le> 1"
  using assms
  by (auto simp add: numeral_3_eq_3 step_AtFor step_InSleep step_AtWhile step_Exited)

lemma stop_anywhere:
  "pc (worker_steps 4 True w) = Exited \<and> elapsed 4 True w \<le> 10"
proof -
  have four: "(4::nat) = Suc (Suc (Suc (Suc 0)))"
    by simp
  show ?thesis
    unfolding four
    by (cases "pc w")
      (simp_all add: step_AtFor step_InSleep step_AtWhile step_Exited step_InCapture)
qed

lemma stop_wait_exits:
  assumes "pc w = AtFor k \<or> pc w = InSleep k" and "3 \<le> n"
  shows "worker_steps n True w = w\<lparr>pc := Exited\<rparr>"
proof -
  note s = stop_in_wait(1) [OF assms(1)]
  have "worker_steps n True w = worker_steps 3 True w"
    by (rule steps_after_exit) (simp_all add: s assms(2))
  with s show ?thesis by simp
qed

lemma stop_wait_elapsed:
  assumes "pc w = AtFor k \<or> pc w = InSleep k"
  shows "elapsed n True w \<le> 1"
proof -
  have "pc (worker_steps 3 True w) = Exited"
    by (simp add: stop_in_wait(1) [OF assms])
  then have "elapsed n True w \<le> elapsed 3 True w"
    by (rule elapsed_bounded_by_exit)
  with stop_in_wait(2) [OF assms] show ?thesis by simp
qed

lemma stop_exits:
  assumes "4 \<le> n"
  shows "pc (worker_steps n True w) = Exited"
proof -
  have x: "pc (worker_steps 4 True w) = Exited"
    using stop_anywhere [of w] by simp
  then have "worker_steps n True w = worker_steps 4 True w"
    using assms by (rule steps_after_exit)
  with x show ?thesis by simp
qed

lemma stop_elapsed: "elapsed n True w \<le> 10"
proof -
  have "pc (worker_steps 4 True w) = Exited" and e: "elapsed 4 True w \<le> 10"
    using stop_anywhere [of w] by simp_all
  then have "elapsed n True w \<le> elapsed 4 True w"
    by (intro elapsed_bounded_by_exit)
  with e show ?thesis by simp
qed

text \<open>With the flag set no step leads into \<open>run_cmd\<close>.\<close>

lemma stop_no_capture: "pc w \<noteq> InCapture \<Longrightarrow> cost shot n True w = 0"
proof (induction n arbitrary: w)
  case 0
  then show ?case by simp
next
  case (Suc n)
  have "pc (worker_step True w) \<noteq> InCapture"
    by (cases "pc w") (simp_all add: step_AtFor step_InSleep step_AtWhile step_Exited step_InCapture)
  then have "cost shot n True (worker_step True w) = 0"
    by (rule Suc.IH)
  moreover have "shot (pc w) = 0"
    using Suc.prems by (cases "pc w") simp_all
  ultimately show ?case by simp
qed

lemma stop_one_capture: "cost shot n True w \<le> 1"
proof (cases n)
  case 0
  then show ?thesis by simp
next
  case (Suc m)
  have "pc (worker_step True w) \<noteq> InCapture"
    by (cases "pc w") (simp_all add: step_AtFor step_InSleep step_AtWhile step_Exited step_InCapture)
  then have "cost shot m True (worker_step True w) = 0"
    by (rule stop_no_capture)
  moreover have "shot (pc w) \<le> 1"
    by (cases "pc w") simp_all
  ultimately show ?thesis using Suc by simp
qed

text \<open>
  C7, as stated: after \<open>stop()\<close> has set the signal during a wait, the loop exits within
  about a second. The signal is a module global that the next accepted start clears, and
  after two interleaved starts the first job is not the thread that a start looks at. That
  job is in its wait when stop is called; the second job exits, a start is accepted and
  clears the flag before the first job has read it, and the first job sleeps on: 24 steps
  and 12 seconds of sleep later it is alive and the flag is clear.
\<close>

theorem stop_undone_by_start:
  "pc (threads (run [Tick 0 NoFile, Tick 0 NoFile, Tick 0 NoFile] raced) ! 0) = InSleep 59
   \<and> timelapse_stop (snd (timelapse_stop_route
        (run [Tick 0 NoFile, Tick 0 NoFile, Tick 0 NoFile] raced)))
   \<and> threads (run ([Tick 1 NoFile, Start \<lparr>req_interval = None, req_duration = None\<rparr>]
                     @ map (Tick 0) (replicate 24 NoFile))
        (snd (timelapse_stop_route (run [Tick 0 NoFile, Tick 0 NoFile, Tick 0 NoFile] raced)))) ! 0
       = \<lparr>interval = 60, max_shots = 0, count = 1, pc = InSleep 47\<rparr>
   \<and> blocked_seconds 0 ([Tick 1 NoFile, Start \<lparr>req_interval = None, req_duration = None\<rparr>]
                          @ map (Tick 0) (replicate 24 NoFile))
        (snd (timelapse_stop_route (run [Tick 0 NoFile, Tick 0 NoFile, Tick 0 NoFile] raced)))
       = 12
   \<and> \<not> timelapse_stop (run ([Tick 1 NoFile, Start \<lparr>req_interval = None, req_duration = None\<rparr>]
                     @ map (Tick 0) (replicate 24 NoFile))
        (snd (timelapse_stop_route (run [Tick 0 NoFile, Tick 0 NoFile, Tick 0 NoFile] raced))))"
proof -
  let ?w = "\<lparr>interval = 60, max_shots = 0, count = 1, pc = InSleep 59\<rparr>"
  let ?sb = "snd (timelapse_stop_route (run [Tick 0 NoFile, Tick 0 NoFile, Tick 0 NoFile] raced))"
  let ?pre = "[Tick 1 NoFile, Start \<lparr>req_interval = None, req_duration = None\<rparr>]"
  let ?sc = "\<lparr>threads = [?w, \<lparr>interval = 60, max_shots = 0, count = 0, pc = Exited\<rparr>,
                         \<lparr>interval = 60, max_shots = 0, count = 0, pc = AtWhile\<rparr>],
              timelapse_thread = Some 2, timelapse_stop = False, files = []\<rparr>"
  have sb: "?sb = \<lparr>threads = [?w, new_worker 60 0], timelapse_thread = Some 1,
                   timelapse_stop = True, files = []\<rparr>"
    by (simp add: raced_state timelapse_stop_route_def tick_def new_worker_def
        step_AtWhile step_InCapture step_AtFor)
  have sc: "run ?pre ?sb = ?sc"
    unfolding sb
    by (simp add: tick_def new_worker_def step_AtWhile timelapse_start_def start_commit_def
        thread_alive_def is_alive_def start_max_shots_def start_interval_def)
  have pre: "total step_seconds 0 ?pre ?sb = 0"
    unfolding sb by (simp add: charge_def)
  have hl: "0 < length (threads ?sc)" by simp
  note rt = run_ticks [OF hl, of "replicate 24 NoFile" step_seconds]
  have ws: "worker_steps 24 False ?w = \<lparr>interval = 60, max_shots = 0, count = 1, pc = InSleep 47\<rparr>"
    by code_simp
  have el: "cost step_seconds 24 False ?w = 12"
    by code_simp
  have 1: "pc (threads (run [Tick 0 NoFile, Tick 0 NoFile, Tick 0 NoFile] raced) ! 0) = InSleep 59"
    by (simp add: raced_state tick_def new_worker_def step_AtWhile step_InCapture step_AtFor)
  have 2: "timelapse_stop ?sb"
    unfolding sb by simp
  have 3: "threads (run (?pre @ map (Tick 0) (replicate 24 NoFile)) ?sb) ! 0
        = \<lparr>interval = 60, max_shots = 0, count = 1, pc = InSleep 47\<rparr>"
    unfolding run_append sc using rt by (simp add: ws)
  have 4: "blocked_seconds 0 (?pre @ map (Tick 0) (replicate 24 NoFile)) ?sb = 12"
    unfolding blocked_seconds_def total_append pre sc using rt by (simp add: el)
  have 5: "\<not> timelapse_stop (run (?pre @ map (Tick 0) (replicate 24 NoFile)) ?sb)"
    unfolding run_append sc using rt by simp
  from 1 2 3 4 5 show ?thesis
    by (intro conjI)
qed

text \<open>
  C7, amended. When the handlers have run one at a time, a stop sets the flag, and the
  flag stays set for as long as a thread that was alive is alive, since a start is
  refused until it has exited. So whatever requests and steps of other threads follow
  the stop, every step that thread \<open>h\<close> makes reads the flag set. In the wait between two
  shots every \<open>time.sleep(1)\<close> is followed by a read of the flag, and a set flag ends
  the wait: a thread that was in the wait blocks for at most one more second, the sleep
  that was under way, begins no capture, and has exited with its third step. From any
  program point the thread blocks for at most one sleep and one capture (\<open>run_cmd\<close> has a
  timeout of 10 seconds), makes no capture attempt but the one under way, and has exited
  with its fourth step. Time is counted in the seconds that \<open>step_seconds\<close> charges to
  each blocking call of the thread.
\<close>

theorem cancellation_latency:
  fixes evs evs' :: "event list" and h k :: nat
  defines "st \<equiv> run evs init"
  defines "w \<equiv> threads st ! h"
  defines "st1 \<equiv> snd (timelapse_stop_route st)"
  defines "st2 \<equiv> run evs' st1"
  assumes h: "h < length (threads st)"
  shows "fst (timelapse_stop_route st) = StopOk \<and> timelapse_stop st1 \<and> threads st1 = threads st
       \<and> (is_alive (threads st2 ! h) \<longrightarrow> timelapse_stop st2)
       \<and> threads st2 ! h = worker_steps (ticks h evs') True w
       \<and> (pc w = AtFor k \<or> pc w = InSleep k \<longrightarrow>
            blocked_seconds h evs' st1 \<le> 1 \<and> attempts h evs' st1 = 0
            \<and> (3 \<le> ticks h evs' \<longrightarrow> threads st2 ! h = w\<lparr>pc := Exited\<rparr>))
       \<and> blocked_seconds h evs' st1 \<le> 1 + step_seconds InCapture
       \<and> attempts h evs' st1 \<le> 1
       \<and> (pc w \<noteq> InCapture \<longrightarrow> attempts h evs' st1 = 0)
       \<and> (4 \<le> ticks h evs' \<longrightarrow> \<not> is_alive (threads st2 ! h))"
proof -
  let ?n = "ticks h evs'"
  have s1: "stopping h st1"
    unfolding st1_def st_def using h [unfolded st_def] by (rule stopping_after_stop)
  have w1: "threads st1 ! h = w"
    by (simp add: st1_def w_def timelapse_stop_route_def)
  note sr = stopping_run [OF s1, of evs', unfolded w1, folded st2_def]
  from sr have s2: "stopping h st2"
    and nth: "threads st2 ! h = worker_steps ?n True w"
    by simp_all
  from sr have tot: "total f h evs' st1 = cost f ?n True w" for f
    using stopping_run [OF s1, of evs' f, unfolded w1] by simp
  have bl: "blocked_seconds h evs' st1 = elapsed ?n True w"
    by (simp add: blocked_seconds_def tot elapsed_cost)
  have at: "attempts h evs' st1 = cost shot ?n True w"
    by (simp add: attempts_def tot)
  have 1: "fst (timelapse_stop_route st) = StopOk"
    and 2: "timelapse_stop st1" and 3: "threads st1 = threads st"
    by (simp_all add: st1_def timelapse_stop_route_def)
  have 4: "is_alive (threads st2 ! h) \<longrightarrow> timelapse_stop st2"
    using s2 by (simp add: stopping_def)
  have 6: "pc w = AtFor k \<or> pc w = InSleep k \<longrightarrow>
            blocked_seconds h evs' st1 \<le> 1 \<and> attempts h evs' st1 = 0
            \<and> (3 \<le> ticks h evs' \<longrightarrow> threads st2 ! h = w\<lparr>pc := Exited\<rparr>)"
  proof
    assume wait: "pc w = AtFor k \<or> pc w = InSleep k"
    then have "pc w \<noteq> InCapture" by auto
    then have a: "attempts h evs' st1 = 0"
      by (simp add: at stop_no_capture)
    have b: "blocked_seconds h evs' st1 \<le> 1"
      unfolding bl using wait by (rule stop_wait_elapsed)
    have c: "3 \<le> ticks h evs' \<longrightarrow> threads st2 ! h = w\<lparr>pc := Exited\<rparr>"
      unfolding nth using wait by (simp add: stop_wait_exits)
    from a b c show "blocked_seconds h evs' st1 \<le> 1 \<and> attempts h evs' st1 = 0
            \<and> (3 \<le> ticks h evs' \<longrightarrow> threads st2 ! h = w\<lparr>pc := Exited\<rparr>)"
      by (intro conjI)
  qed
  have "elapsed ?n True w \<le> 10" by (rule stop_elapsed)
  then have 7: "blocked_seconds h evs' st1 \<le> 1 + step_seconds InCapture"
    by (simp add: bl)
  have 8: "attempts h evs' st1 \<le> 1"
    unfolding at by (rule stop_one_capture)
  have 9: "pc w \<noteq> InCapture \<longrightarrow> attempts h evs' st1 = 0"
    by (simp add: at stop_no_capture)
  have 10: "4 \<le> ticks h evs' \<longrightarrow> \<not> is_alive (threads st2 ! h)"
    unfolding nth by (simp add: is_alive_def stop_exits)
  from 1 2 3 4 nth 6 7 8 9 10 show ?thesis
    by (intro conjI)
qed

theorem cancellation_latency_witness:
  "0 < length (threads (run [Start \<lparr>req_interval = Some 10, req_duration = Some 35\<rparr>,
                             Tick 0 NoFile, Tick 0 NoFile, Tick 0 NoFile] init))
   \<and> threads (run [Start \<lparr>req_interval = Some 10, req_duration = Some 35\<rparr>,
                    Tick 0 NoFile, Tick 0 NoFile, Tick 0 NoFile] init) ! 0
       = \<lparr>interval = 10, max_shots = 3, count = 1, pc = InSleep 9\<rparr>
   \<and> threads (run [GetStatus, Tick 0 NoFile, Start \<lparr>req_interval = None, req_duration = None\<rparr>,
                    Tick 0 NoFile, Tick 0 NoFile]
        (snd (timelapse_stop_route
           (run [Start \<lparr>req_interval = Some 10, req_duration = Some 35\<rparr>,
                 Tick 0 NoFile, Tick 0 NoFile, Tick 0 NoFile] init)))) ! 0
       = \<lparr>interval = 10, max_shots = 3, count = 1, pc = Exited\<rparr>
   \<and> blocked_seconds 0
        [GetStatus, Tick 0 NoFile, Start \<lparr>req_interval = None, req_duration = None\<rparr>,
         Tick 0 NoFile, Tick 0 NoFile]
        (snd (timelapse_stop_route
           (run [Start \<lparr>req_interval = Some 10, req_duration = Some 35\<rparr>,
                 Tick 0 NoFile, Tick 0 NoFile, Tick 0 NoFile] init))) \<le> 1"
proof -
  let ?evs = "[Start \<lparr>req_interval = Some 10, req_duration = Some 35\<rparr>,
               Tick 0 NoFile, Tick 0 NoFile, Tick 0 NoFile]"
  let ?evs' = "[GetStatus, Tick 0 NoFile, Start \<lparr>req_interval = None, req_duration = None\<rparr>,
                Tick 0 NoFile, Tick 0 NoFile]"
  let ?w = "\<lparr>interval = 10, max_shots = 3, count = 1, pc = InSleep 9\<rparr>"
  have r: "run ?evs init
     = \<lparr>threads = [?w], timelapse_thread = Some 0, timelapse_stop = False, files = []\<rparr>"
    by (simp add: timelapse_start_def start_commit_def thread_alive_def init_def
        start_max_shots_eq start_interval_def new_worker_def tick_def
        step_AtWhile step_InCapture step_AtFor)
  have h: "0 < length (threads (run ?evs init))"
    unfolding r by simp
  have w: "threads (run ?evs init) ! 0 = ?w"
    unfolding r by simp
  have n: "3 \<le> ticks 0 ?evs'"
    by (simp add: ticks_def)
  have p: "pc ?w = AtFor 9 \<or> pc ?w = InSleep 9"
    by simp
  note t = cancellation_latency [OF h, of ?evs' 9, unfolded w]
  note t6 = t [THEN conjunct2, THEN conjunct2, THEN conjunct2, THEN conjunct2, THEN conjunct2,
      THEN conjunct1, THEN mp, OF p]
  note b = t6 [THEN conjunct1]
  note x = t6 [THEN conjunct2, THEN conjunct2, THEN mp, OF n]
  from x have x': "threads (run ?evs' (snd (timelapse_stop_route (run ?evs init)))) ! 0
       = \<lparr>interval = 10, max_shots = 3, count = 1, pc = Exited\<rparr>"
    by simp
  from h w x' b show ?thesis
    by (intro conjI)
qed

section \<open>Negative duration\<close>

text \<open>
  C10. A start request with a negative duration is accepted like one with duration 0: the
  same answer and the same new state, a job with \<open>max_shots = 0\<close>; that job never leaves the
  loop while the stop flag is clear, and it does capture (one attempt after two steps).
\<close>

theorem negative_duration_unbounded:
  fixes d :: int and i :: "int option"
  assumes "\<not> thread_alive st" and "d < 0"
  defines "neg \<equiv> \<lparr>req_interval = i, req_duration = Some d\<rparr>"
  defines "zero \<equiv> \<lparr>req_interval = i, req_duration = Some 0\<rparr>"
  shows "timelapse_start neg st = timelapse_start zero st
       \<and> fst (timelapse_start neg st) = StartOk (start_interval neg)
       \<and> current (snd (timelapse_start neg st)) = Some (new_worker (start_interval neg) 0)
       \<and> (\<forall>n. is_alive (worker_steps n False (new_worker (start_interval neg) 0)))
       \<and> count (worker_steps 2 False (new_worker (start_interval neg) 0)) = 1"
proof -
  have iv: "start_interval neg = start_interval zero"
    by (simp add: neg_def zero_def start_interval_def)
  have ms: "start_max_shots neg = Inr 0" "start_max_shots zero = Inr 0"
    using assms(2) by (simp_all add: neg_def zero_def start_max_shots_def)
  have a: "timelapse_start neg st = timelapse_start zero st"
    by (simp add: start_accepted [OF assms(1) ms(1)] start_accepted [OF assms(1) ms(2)] iv)
  have b: "fst (timelapse_start neg st) = StartOk (start_interval neg)"
    by (simp add: start_accepted [OF assms(1) ms(1)])
  have c: "current (snd (timelapse_start neg st)) = Some (new_worker (start_interval neg) 0)"
    using assms(1) ms(1) by (rule current_after_start)
  have d: "\<forall>n. is_alive (worker_steps n False (new_worker (start_interval neg) 0))"
    by (simp add: new_worker_unbounded)
  have e: "count (worker_steps 2 False (new_worker (start_interval neg) 0)) = 1"
    by (simp add: numeral_2_eq_2 new_worker_def step_AtWhile step_InCapture)
  from a b c d e show ?thesis by blast
qed

theorem negative_duration_unbounded_witness:
  "\<not> thread_alive init \<and> (-5::int) < 0
   \<and> timelapse_start \<lparr>req_interval = Some 30, req_duration = Some (-5)\<rparr> init
       = timelapse_start \<lparr>req_interval = Some 30, req_duration = Some 0\<rparr> init
   \<and> current (snd (timelapse_start \<lparr>req_interval = Some 30, req_duration = Some (-5)\<rparr> init))
       = Some (new_worker 30 0)"
proof -
  have h: "\<not> thread_alive init"
    by (simp add: thread_alive_def init_def)
  have n: "(-5::int) < 0" by simp
  have iv: "start_interval \<lparr>req_interval = Some 30, req_duration = Some (-5)\<rparr> = 30"
    by (simp add: start_interval_def)
  note t = negative_duration_unbounded [OF h n, of "Some 30", unfolded iv]
  note t1 = t [THEN conjunct1]
  note t3 = t [THEN conjunct2, THEN conjunct2, THEN conjunct1]
  from h n t1 t3 show ?thesis
    by (intro conjI)
qed

section \<open>Stop\<close>

lemma thread_alive_flag [simp]: "thread_alive (st\<lparr>timelapse_stop := b\<rparr>) = thread_alive st"
  by (simp add: thread_alive_def split: option.splits)

lemma start_commit_flag:
  "start_max_shots data = Inr m \<Longrightarrow>
   start_commit data (st\<lparr>timelapse_stop := b\<rparr>) = start_commit data st"
  by (simp add: start_commit_def)

text \<open>
  C9, as stated: stop while idle leaves the state unchanged. It does not: in the initial
  state no thread exists, and stop turns \<open>timelapse_stop\<close> from False to True.
\<close>

theorem stop_changes_idle_state:
  "\<not> thread_alive init \<and> snd (timelapse_stop_route init) \<noteq> init"
  by (simp add: thread_alive_def init_def timelapse_stop_route_def)

text \<open>
  C9, amended. Stop always answers success and only sets \<open>timelapse_stop\<close>: threads, thread
  handle and files are kept, so an idle worker stays idle; a second stop changes nothing
  more; and while idle the flag it sets is not observable, since the next start answers
  and leaves the state exactly as it would have without the stop (only a start whose
  handler raises leaves before it resets the flag).
\<close>

theorem stop_when_idle:
  "fst (timelapse_stop_route st) = StopOk
   \<and> snd (timelapse_stop_route st) = st\<lparr>timelapse_stop := True\<rparr>
   \<and> thread_alive (snd (timelapse_stop_route st)) = thread_alive st
   \<and> timelapse_stop_route (snd (timelapse_stop_route st)) = timelapse_stop_route st
   \<and> (\<not> thread_alive st \<longrightarrow>
        timelapse_start data (snd (timelapse_stop_route st))
          = (if fst (timelapse_start data st) = InternalServerError
             then (InternalServerError, st\<lparr>timelapse_stop := True\<rparr>)
             else timelapse_start data st))"
proof -
  have "timelapse_start data (snd (timelapse_stop_route st))
          = (if fst (timelapse_start data st) = InternalServerError
             then (InternalServerError, st\<lparr>timelapse_stop := True\<rparr>)
             else timelapse_start data st)"
    if idle: "\<not> thread_alive st"
  proof (cases "start_max_shots data")
    case (Inl err)
    from idle have "\<not> thread_alive (st\<lparr>timelapse_stop := True\<rparr>)" by simp
    then show ?thesis
      using idle Inl by (simp add: timelapse_stop_route_def start_failed)
  next
    case (Inr m)
    from idle have "timelapse_start data (snd (timelapse_stop_route st)) = timelapse_start data st"
      by (simp add: timelapse_stop_route_def timelapse_start_def start_commit_flag [OF Inr])
    then show ?thesis
      by (simp add: start_accepted [OF idle Inr])
  qed
  then show ?thesis
    by (simp add: timelapse_stop_route_def)
qed

theorem stop_when_idle_witness:
  "\<not> thread_alive init
   \<and> fst (timelapse_stop_route init) = StopOk
   \<and> snd (timelapse_stop_route init) = init\<lparr>timelapse_stop := True\<rparr>
   \<and> timelapse_start \<lparr>req_interval = None, req_duration = None\<rparr> (snd (timelapse_stop_route init))
       = timelapse_start \<lparr>req_interval = None, req_duration = None\<rparr> init"
proof -
  have h: "\<not> thread_alive init"
    by (simp add: thread_alive_def init_def)
  have a: "fst (timelapse_start \<lparr>req_interval = None, req_duration = None\<rparr> init)
           \<noteq> InternalServerError"
    by (simp add: start_accepted [OF h start_max_shots_default])
  note t = stop_when_idle [of init "\<lparr>req_interval = None, req_duration = None\<rparr>"]
  note t1 = t [THEN conjunct1]
  note t2 = t [THEN conjunct2, THEN conjunct1]
  note t5 = t [THEN conjunct2, THEN conjunct2, THEN conjunct2, THEN conjunct2, THEN mp, OF h]
  from t5 a have t5': "timelapse_start \<lparr>req_interval = None, req_duration = None\<rparr>
        (snd (timelapse_stop_route init))
      = timelapse_start \<lparr>req_interval = None, req_duration = None\<rparr> init"
    by simp
  from h t1 t2 t5' show ?thesis
    by (intro conjI)
qed

section \<open>Status\<close>

lemma sorted_reverse_desc: "sorted (rev (map key (sorted_reverse key xs)))"
  by (simp add: sorted_reverse_def rev_map [symmetric])

lemma sorted_reverse_mset: "mset (sorted_reverse key xs) = mset xs"
  by (simp add: sorted_reverse_def)

text \<open>
  C8, as stated: status returns the number of shots taken. The number it returns is
  \<open>len(images)\<close>, the number of \<open>*.jpg\<close> files in the directory, and the handler never
  reads the loop's \<open>count\<close>. After a start and one capture whose command failed, the loop
  has counted one shot and status reports 0.
\<close>

theorem status_count_is_not_shots:
  "fst (timelapse_status
          (run [Start \<lparr>req_interval = Some 10, req_duration = Some 35\<rparr>,
                Tick 0 NoFile, Tick 0 NoFile] init))
     = Status True 0 []
   \<and> map count
       (threads (run [Start \<lparr>req_interval = Some 10, req_duration = Some 35\<rparr>,
                      Tick 0 NoFile, Tick 0 NoFile] init)) = [1]"
  by (simp add: timelapse_status_def status_images_def sorted_reverse_def
      timelapse_start_def start_commit_def thread_alive_def init_def is_alive_def
      new_worker_def tick_def step_AtWhile step_InCapture start_max_shots_eq
      start_interval_def)

text \<open>
  C8, amended. Status returns the running flag, the number of \<open>*.jpg\<close> files in the
  capture directory, and name and path of the first 20 of these files in the order of
  modification time, newest first (the sorted list is a permutation of the directory
  listing); the shared state is returned as it was. In every state that a run of requests
  and thread steps reaches from the initial one, the running flag is true exactly when
  some worker thread has not returned.
\<close>

theorem status_contract:
  "timelapse_status st
     = (Status (thread_alive st) (length (files st))
          (map (\<lambda>i. (name i, ''timelapse/'' @ name i)) (take 20 (status_images st))), st)
   \<and> mset (status_images st) = mset (files st)
   \<and> sorted (rev (map mtime (status_images st)))
   \<and> length (take 20 (status_images st)) = min 20 (length (files st))
   \<and> (thread_alive (run evs init) \<longleftrightarrow> (\<exists>w \<in> set (threads (run evs init)). is_alive w))"
proof -
  have len: "length (status_images st) = length (files st)"
    using sorted_reverse_mset [of mtime "files st"]
    by (metis status_images_def size_mset)
  have a: "timelapse_status st
     = (Status (thread_alive st) (length (files st))
          (map (\<lambda>i. (name i, ''timelapse/'' @ name i)) (take 20 (status_images st))), st)"
    by (simp add: timelapse_status_def Let_def len)
  have b: "mset (status_images st) = mset (files st)"
    by (simp add: status_images_def sorted_reverse_mset)
  have c: "sorted (rev (map mtime (status_images st)))"
    unfolding status_images_def by (rule sorted_reverse_desc)
  have d: "length (take 20 (status_images st)) = min 20 (length (files st))"
    by (simp add: len min.commute)
  have e: "thread_alive (run evs init) \<longleftrightarrow> (\<exists>w \<in> set (threads (run evs init)). is_alive w)"
    by (rule one_owner_running) (rule one_owner_run, rule one_owner_init)
  from a b c d e show ?thesis by blast
qed

section \<open>One job at a time\<close>

lemma interleave_sequential:
  "interleave [0, 0] ([Checking data], st)
   = ([Replied (fst (timelapse_start data st))], snd (timelapse_start data st))"
  by (simp add: timelapse_start_def start_commit_def split: sum.splits)

text \<open>
  C1, as stated: of any number of concurrent start calls at most one starts a job and
  the others are rejected. The handler reads \<open>timelapse_thread\<close> and writes it later with
  no lock held, and nothing else in the module synchronises the two. Two start handlers
  that both make the check before either assigns both answer success, and two worker
  threads are alive, the first no longer reachable through \<open>timelapse_thread\<close>.
\<close>

theorem concurrent_starts_race:
  "interleave [0, 1, 0, 1]
     ([Checking \<lparr>req_interval = None, req_duration = None\<rparr>,
       Checking \<lparr>req_interval = None, req_duration = None\<rparr>], init)
   = ([Replied (StartOk 60), Replied (StartOk 60)],
      \<lparr>threads = [new_worker 60 0, new_worker 60 0], timelapse_thread = Some 1,
       timelapse_stop = False, files = []\<rparr>)
   \<and> alive_count \<lparr>threads = [new_worker 60 0, new_worker 60 0], timelapse_thread = Some 1,
       timelapse_stop = False, files = []\<rparr> = 2"
  by (simp add: start_commit_def thread_alive_def init_def is_alive_def
      new_worker_def start_max_shots_def start_interval_def alive_count_def)

text \<open>
  C1, amended. When every handler runs from its check to its reply with no other handler
  in between, then in every state that requests and thread steps reach from the initial
  one at most one worker thread is alive; the running check is true exactly when there
  is one; while it is true a start is rejected and changes nothing; and a start made
  while it is false leaves exactly one live thread if it is accepted, and none if the
  handler raises.
\<close>

theorem single_active_job_sequential:
  "alive_count (run evs init) \<le> 1
   \<and> (thread_alive (run evs init) \<longleftrightarrow> alive_count (run evs init) = 1)
   \<and> (thread_alive (run evs init) \<longrightarrow>
        timelapse_start data (run evs init) = (AlreadyRunning, run evs init))
   \<and> (\<not> thread_alive (run evs init) \<longrightarrow>
        alive_count (snd (timelapse_start data (run evs init)))
          = (if fst (timelapse_start data (run evs init)) = StartOk (start_interval data)
             then 1 else 0))"
proof -
  let ?st = "run evs init"
  have inv: "one_owner ?st"
    by (rule one_owner_run) (rule one_owner_init)
  have le: "alive_count ?st \<le> 1"
    using inv by (rule one_owner_alive_count)
  have pos: "thread_alive ?st \<longleftrightarrow> 0 < alive_count ?st"
    unfolding one_owner_running [OF inv] alive_count_def
    by (simp add: filter_empty_conv)
  have eq: "thread_alive ?st \<longleftrightarrow> alive_count ?st = 1"
    using le pos by linarith
  have rej: "thread_alive ?st \<longrightarrow> timelapse_start data ?st = (AlreadyRunning, ?st)"
    by (simp add: timelapse_start_def)
  have acc: "\<not> thread_alive ?st \<longrightarrow> alive_count (snd (timelapse_start data ?st))
          = (if fst (timelapse_start data ?st) = StartOk (start_interval data) then 1 else 0)"
  proof
    assume idle: "\<not> thread_alive ?st"
    let ?st' = "snd (timelapse_start data ?st)"
    show "alive_count ?st'
          = (if fst (timelapse_start data ?st) = StartOk (start_interval data) then 1 else 0)"
    proof (cases "start_max_shots data")
      case (Inl err)
      from idle eq le have "alive_count ?st = 0" by linarith
      with idle Inl show ?thesis by (simp add: start_failed)
    next
      case (Inr m)
      have "one_owner ?st'"
        using inv by (rule one_owner_start)
      then have "alive_count ?st' \<le> 1"
        by (rule one_owner_alive_count)
      moreover have "0 < alive_count ?st'"
        by (simp add: start_accepted [OF idle Inr] alive_count_def is_alive_def new_worker_def)
      ultimately have "alive_count ?st' = 1" by linarith
      then show ?thesis
        by (simp add: start_accepted [OF idle Inr])
    qed
  qed
  from le eq rej acc show ?thesis by blast
qed

theorem single_active_job_sequential_witness:
  "thread_alive (run [Start \<lparr>req_interval = Some 10, req_duration = Some 35\<rparr>, Tick 0 NoFile] init)
   \<and> alive_count (run [Start \<lparr>req_interval = Some 10, req_duration = Some 35\<rparr>, Tick 0 NoFile] init) = 1
   \<and> timelapse_start \<lparr>req_interval = None, req_duration = None\<rparr>
       (run [Start \<lparr>req_interval = Some 10, req_duration = Some 35\<rparr>, Tick 0 NoFile] init)
     = (AlreadyRunning,
        run [Start \<lparr>req_interval = Some 10, req_duration = Some 35\<rparr>, Tick 0 NoFile] init)"
proof -
  let ?evs = "[Start \<lparr>req_interval = Some 10, req_duration = Some 35\<rparr>, Tick 0 NoFile]"
  have h: "thread_alive (run ?evs init)"
    by (simp add: timelapse_start_def start_commit_def thread_alive_def init_def is_alive_def
        new_worker_def tick_def step_AtWhile start_max_shots_eq start_interval_def)
  note t = single_active_job_sequential [of ?evs "\<lparr>req_interval = None, req_duration = None\<rparr>"]
  note t2 = t [THEN conjunct2, THEN conjunct1, THEN iffD1, OF h]
  note t3 = t [THEN conjunct2, THEN conjunct2, THEN conjunct1, THEN mp, OF h]
  from h t2 t3 show ?thesis
    by (intro conjI)
qed

section \<open>Searching the buffer\<close>








section \<open>One step of the frame loop\<close>









section \<open>Frames of a stream\<close>

text \<open>
  C2: \<open>N\<close> frames back to back give \<open>N\<close> emitted frames for every way of cutting the
  stream into chunks. The loop tests the buffer once per read (\<open>if\<close>, not \<open>while\<close>), so a
  read that completes two frames emits the first only; the second waits for a further
  read and is lost when the stream ends. The stream of the two frames
  \<open>FF D8 01 FF D9\<close> and \<open>FF D8 02 FF D9\<close> gives one frame when it arrives as one chunk,
  and both when it arrives byte by byte.
\<close>

theorem second_frame_of_a_read_is_lost:
  "gen_run [] [[0xFF, 0xD8, 1, 0xFF, 0xD9, 0xFF, 0xD8, 2, 0xFF, 0xD9]]
     = ([[0xFF, 0xD8, 1, 0xFF, 0xD9]], [0xFF, 0xD8, 2, 0xFF, 0xD9])
   \<and> gen_frames [[0xFF, 0xD8, 1, 0xFF, 0xD9, 0xFF, 0xD8, 2, 0xFF, 0xD9]]
     = [part [0xFF, 0xD8, 1, 0xFF, 0xD9]]
   \<and> gen_frames (map (\<lambda>b. [b]) [0xFF, 0xD8, 1, 0xFF, 0xD9, 0xFF, 0xD8, 2, 0xFF, 0xD9])
     = [part [0xFF, 0xD8, 1, 0xFF, 0xD9], part [0xFF, 0xD8, 2, 0xFF, 0xD9]]"
  by (simp add: gen_frames_def gen_step_def bytes_find_def SOI_def EOI_def slice_def
      slice_from_def Let_def)


section \<open>The child process of the stream\<close>

lemma body_not_closed: "fst (body buf rs) \<noteq> Closed"
  by (induction buf rs rule: body.induct) (auto split: prod.splits option.splits)

lemma resume_cases:
  "(\<exists>y. fst (resume g) = Yield y \<and> gpc (snd (resume g)) = Suspended \<and> proc (snd (resume g)) = proc g)
   \<or> ((fst (resume g) = StopIteration \<or> fst (resume g) = Raise)
       \<and> gpc (snd (resume g)) = Finished \<and> proc (snd (resume g)) = Terminated)"
proof -
  obtain out buf rs where b: "body (gbuf g) (pipe g) = (out, buf, rs)"
    by (cases "body (gbuf g) (pipe g)")
  with body_not_closed [of "gbuf g" "pipe g"] have "out \<noteq> Closed" by simp
  with b show ?thesis
    by (cases out) (simp_all add: resume_def finally_terminate_def)
qed

lemma owns_new: "owns (new_gen rs ok)"
  by (simp add: owns_def new_gen_def)

lemma owns_next: "owns g \<Longrightarrow> owns (snd (gen_next g))"
proof (cases "gpc g")
  case Created
  assume "owns g"
  show ?thesis
  proof (cases "popen_ok g")
    case True
    with Created resume_cases [of "g\<lparr>proc := Running, gbuf := []\<rparr>"] show ?thesis
      by (auto simp: gen_next_def owns_def)
  next
    case False
    with Created \<open>owns g\<close> show ?thesis
      by (simp add: gen_next_def owns_def)
  qed
next
  case Suspended
  assume "owns g"
  with Suspended resume_cases [of g] show ?thesis
    by (auto simp: gen_next_def owns_def)
next
  case Finished
  assume "owns g"
  with Finished show ?thesis by (simp add: gen_next_def)
qed

lemma close_finishes:
  "owns g \<Longrightarrow> gpc (snd (gen_close g)) = Finished \<and> proc (snd (gen_close g)) \<noteq> Running
     \<and> (proc g = Running \<longrightarrow> proc (snd (gen_close g)) = Terminated)"
  by (cases "gpc g") (simp_all add: gen_close_def finally_terminate_def owns_def)

lemma throw_finishes:
  "owns g \<Longrightarrow> gpc (snd (gen_throw g)) = Finished \<and> proc (snd (gen_throw g)) \<noteq> Running
     \<and> (proc g = Running \<longrightarrow> proc (snd (gen_throw g)) = Terminated)"
  by (cases "gpc g") (simp_all add: gen_throw_def finally_terminate_def owns_def)

lemma owns_finished: "gpc g = Finished \<Longrightarrow> proc g \<noteq> Running \<Longrightarrow> owns g"
  by (simp add: owns_def)

lemma owns_apply: "owns g \<Longrightarrow> owns (snd (gen_apply x g))"
proof (cases x)
  case Next
  assume "owns g"
  then show ?thesis unfolding Next gen_apply.simps by (rule owns_next)
next
  case Close
  assume "owns g"
  from close_finishes [OF this] show ?thesis
    unfolding Close gen_apply.simps by (simp add: owns_finished)
next
  case Throw
  assume "owns g"
  from throw_finishes [OF this] show ?thesis
    unfolding Throw gen_apply.simps by (simp add: owns_finished)
qed

lemma owns_ops: "owns g \<Longrightarrow> owns (gen_ops xs g)"
  by (induction xs arbitrary: g) (simp_all add: owns_apply)

lemma next_exit:
  assumes "owns g" and "\<forall>y. fst (gen_next g) \<noteq> Yield y"
  shows "gpc (snd (gen_next g)) = Finished \<and> proc (snd (gen_next g)) \<noteq> Running
     \<and> (proc g = Running \<longrightarrow> proc (snd (gen_next g)) = Terminated)"
proof (cases "gpc g")
  case Created
  show ?thesis
  proof (cases "popen_ok g")
    case True
    with Created assms resume_cases [of "g\<lparr>proc := Running, gbuf := []\<rparr>"] show ?thesis
      by (auto simp: gen_next_def owns_def)
  next
    case False
    with Created assms show ?thesis
      by (simp add: gen_next_def owns_def)
  qed
next
  case Suspended
  with assms resume_cases [of g] show ?thesis
    by (auto simp: gen_next_def owns_def)
next
  case Finished
  with assms show ?thesis by (simp add: gen_next_def owns_def)
qed

text \<open>
  C4. Whatever the consumer does with the generator (any series of \<open>next\<close>, \<open>close\<close> and
  \<open>throw\<close>), whatever the reads return and whether \<open>Popen\<close> succeeds: the child process
  runs exactly while the generator is suspended at its \<open>yield\<close>; a generator that was never
  started has spawned none; and every exit leaves no running process: a \<open>next\<close> that ends
  with the end of the stream or with an error, a \<open>close\<close> and a \<open>throw\<close> all leave the
  generator finished, and if the process was running, \<open>p.terminate()\<close> has been called on it.
\<close>

theorem encoder_terminated_on_every_exit:
  fixes xs :: "gen_op list" and rs :: "read_result list" and ok :: bool
  defines "g \<equiv> gen_ops xs (new_gen rs ok)"
  shows
    "(proc g = Running \<longleftrightarrow> gpc g = Suspended)
   \<and> (gpc g = Created \<longrightarrow> proc g = NotSpawned)
   \<and> (gpc g = Finished \<longrightarrow> proc g \<noteq> Running)
   \<and> (fst (gen_next g) = StopIteration \<or> fst (gen_next g) = Raise \<longrightarrow>
        gpc (snd (gen_next g)) = Finished \<and> proc (snd (gen_next g)) \<noteq> Running)
   \<and> gpc (snd (gen_close g)) = Finished \<and> proc (snd (gen_close g)) \<noteq> Running
   \<and> gpc (snd (gen_throw g)) = Finished \<and> proc (snd (gen_throw g)) \<noteq> Running
   \<and> (proc g = Running \<longrightarrow>
        proc (snd (gen_close g)) = Terminated \<and> proc (snd (gen_throw g)) = Terminated
        \<and> (fst (gen_next g) = StopIteration \<or> fst (gen_next g) = Raise \<longrightarrow>
             proc (snd (gen_next g)) = Terminated))"
proof -
  have inv: "owns g"
    unfolding g_def by (rule owns_ops) (rule owns_new)
  have 1: "proc g = Running \<longleftrightarrow> gpc g = Suspended"
    using inv by (cases "gpc g") (simp_all add: owns_def)
  have 2: "gpc g = Created \<longrightarrow> proc g = NotSpawned"
    using inv by (cases "gpc g") (simp_all add: owns_def)
  have 3: "gpc g = Finished \<longrightarrow> proc g \<noteq> Running"
    using inv by (cases "gpc g") (simp_all add: owns_def)
  have nx: "gpc (snd (gen_next g)) = Finished \<and> proc (snd (gen_next g)) \<noteq> Running
     \<and> (proc g = Running \<longrightarrow> proc (snd (gen_next g)) = Terminated)"
    if "fst (gen_next g) = StopIteration \<or> fst (gen_next g) = Raise"
  proof (rule next_exit [OF inv])
    from that show "\<forall>y. fst (gen_next g) \<noteq> Yield y" by auto
  qed
  then have 4: "fst (gen_next g) = StopIteration \<or> fst (gen_next g) = Raise \<longrightarrow>
        gpc (snd (gen_next g)) = Finished \<and> proc (snd (gen_next g)) \<noteq> Running"
    by blast
  note cl = close_finishes [OF inv]
  note th = throw_finishes [OF inv]
  have 5: "gpc (snd (gen_close g)) = Finished" and 6: "proc (snd (gen_close g)) \<noteq> Running"
    using cl by simp_all
  have 7: "gpc (snd (gen_throw g)) = Finished" and 8: "proc (snd (gen_throw g)) \<noteq> Running"
    using th by simp_all
  have 9: "proc g = Running \<longrightarrow>
        proc (snd (gen_close g)) = Terminated \<and> proc (snd (gen_throw g)) = Terminated
        \<and> (fst (gen_next g) = StopIteration \<or> fst (gen_next g) = Raise \<longrightarrow>
             proc (snd (gen_next g)) = Terminated)"
    using cl th nx by blast
  from 1 2 3 4 5 6 7 8 9 show ?thesis by (intro conjI)
qed

theorem encoder_terminated_on_every_exit_witness:
  "proc (gen_ops [Next] (new_gen [Data [0xFF, 0xD8, 1, 0xFF, 0xD9]] True)) = Running
   \<and> proc (snd (gen_close (gen_ops [Next] (new_gen [Data [0xFF, 0xD8, 1, 0xFF, 0xD9]] True))))
       = Terminated
   \<and> proc (snd (gen_throw (gen_ops [Next] (new_gen [Data [0xFF, 0xD8, 1, 0xFF, 0xD9]] True))))
       = Terminated
   \<and> fst (gen_next (gen_ops [Next] (new_gen [Data [0xFF, 0xD8, 1, 0xFF, 0xD9]] True)))
       = StopIteration
   \<and> proc (snd (gen_next (gen_ops [Next] (new_gen [Data [0xFF, 0xD8, 1, 0xFF, 0xD9]] True))))
       = Terminated
   \<and> fst (gen_next (gen_ops [Next] (new_gen [Data [0xFF, 0xD8, 1, 0xFF, 0xD9], ReadError] True)))
       = Raise
   \<and> proc (snd (gen_next (gen_ops [Next]
         (new_gen [Data [0xFF, 0xD8, 1, 0xFF, 0xD9], ReadError] True))))
       = Terminated"
proof -
  let ?F = "[0xFF, 0xD8, 1, 0xFF, 0xD9] :: byte list"
  let ?g = "gen_ops [Next] (new_gen [Data ?F] True)"
  let ?g' = "gen_ops [Next] (new_gen [Data ?F, ReadError] True)"
  have st: "gen_step [] ?F = (Some ?F, [])"
    by (simp add: gen_step_def bytes_find_def SOI_def EOI_def slice_def slice_from_def Let_def)
  have g: "?g = \<lparr>gpc = Suspended, gbuf = [], proc = Running, pipe = [], popen_ok = True\<rparr>"
    by (simp add: new_gen_def gen_next_def resume_def st)
  have g': "?g' = \<lparr>gpc = Suspended, gbuf = [], proc = Running, pipe = [ReadError], popen_ok = True\<rparr>"
    by (simp add: new_gen_def gen_next_def resume_def st)
  have r: "proc ?g = Running" by (subst g) simp
  have r': "proc ?g' = Running" by (subst g') simp
  have e: "fst (gen_next ?g) = StopIteration"
    by (subst g) (simp add: gen_next_def resume_def finally_terminate_def)
  have e': "fst (gen_next ?g') = Raise"
    by (subst g') (simp add: gen_next_def resume_def finally_terminate_def)
  note t = encoder_terminated_on_every_exit [of "[Next]" "[Data ?F]" True]
  note t' = encoder_terminated_on_every_exit [of "[Next]" "[Data ?F, ReadError]" True]
  note last = t [THEN conjunct2, THEN conjunct2, THEN conjunct2, THEN conjunct2, THEN conjunct2,
      THEN conjunct2, THEN conjunct2, THEN conjunct2, THEN mp, OF r]
  note last' = t' [THEN conjunct2, THEN conjunct2, THEN conjunct2, THEN conjunct2, THEN conjunct2,
      THEN conjunct2, THEN conjunct2, THEN conjunct2, THEN mp, OF r']
  note c = last [THEN conjunct1]
  note th = last [THEN conjunct2, THEN conjunct1]
  note n = last [THEN conjunct2, THEN conjunct2, THEN mp, OF disjI1, OF e]
  note n' = last' [THEN conjunct2, THEN conjunct2, THEN mp, OF disjI2, OF e']
  from r c th e n e' n' show ?thesis
    by (intro conjI)
qed

end
